theory Spec2Isabelle
  imports Main "HOL-Library.Multiset"
begin

section \<open>The message queues of cvkit: gutil/msgqueue.h\<close>

text \<open>
  The header declares two class templates, \<open>MsgQueue<T>\<close> and \<open>MsgQueueReplace<T>\<close>.
  Each is embedded twice:
  \<^item> as sequential operations (\<open>push\<close>, \<open>pop\<close>, \<open>pushR\<close>, \<open>popR\<close>): one call run from
    its first statement to its return by a thread that is alone;
  \<^item> as a transition system (\<open>step\<close>, \<open>stepR\<close>): one statement of one thread at a time,
    so that calls of different threads interleave.
  The member \<open>int nmax\<close> is an \<open>int\<close>: no arithmetic is done on it but the comparison
  with the queue's size and the constructor's counting loop, which stops at \<open>nmax\<close>. The
  comparison \<open>queue.size() >= nmax\<close> converts \<open>nmax\<close> to \<open>size_t\<close>; the constructor makes
  \<open>nmax\<close> at least 1, so the conversion keeps its value and the comparison is that of the
  integers. \<open>std::queue<T>\<close> is a list, oldest element first. The members of
  \<open>MsgQueueReplace\<close> carry the suffix \<open>R\<close>.
  The atomic steps of the transition systems are the operations of the semaphores and
  the calls of \<open>std::queue\<close>; that no two threads are in the storage at once is not
  assumed but proved, from the mutex.
\<close>

subsection \<open>Outcomes\<close>

text \<open>
  \<open>Blocks\<close>: the thread waits in \<open>Semaphore::decrement\<close>. \<open>Undefined\<close>: \<open>front()\<close> or
  \<open>pop()\<close> of an empty \<open>std::queue\<close>, which C++ leaves undefined. \<open>Halted\<close>: the
  scheduler picked a thread that has no call left, or that does not exist.
\<close>

datatype error = Blocks | Undefined | Halted

definition and_then :: "error + 'a \<Rightarrow> ('a \<Rightarrow> error + 'b) \<Rightarrow> error + 'b" where
  "and_then r f = (case r of Inl e \<Rightarrow> Inl e | Inr x \<Rightarrow> f x)"

subsection \<open>Semaphore and Lock (gutil/semaphore.h)\<close>

text \<open>
  Modelled from the spec: the class \<open>Semaphore\<close> of gutil/semaphore.h, which msgqueue.h
  includes. The spec calls it a permit counter: "a non-negative integer counter with
  blocking decrement and non-blocking increment".
\<close>

type_synonym Semaphore = nat

text \<open>
  Modelled from the spec: the default constructor of \<open>Semaphore\<close>. The constructors of
  both queues leave \<open>full\<close> untouched and the spec has it start at zero.
\<close>

definition new_Semaphore :: Semaphore where
  "new_Semaphore = 0"

text \<open>
  Modelled from the spec: \<open>Semaphore::increment\<close>, "release one permit"; it never blocks.
\<close>

definition increment :: "Semaphore \<Rightarrow> Semaphore" where
  "increment s = s + 1"

text \<open>
  Modelled from the spec: \<open>Semaphore::decrement\<close>, "acquire one permit, blocking while
  zero".
\<close>

definition decrement :: "Semaphore \<Rightarrow> error + Semaphore" where
  "decrement s = (if s = 0 then Inl Blocks else Inr (s - 1))"

text \<open>
  Modelled from the spec: the class \<open>Lock\<close>, the scoped acquisition of a semaphore: its
  constructor is \<open>decrement\<close> and its destructor, at the end of the enclosing block, is
  \<open>increment\<close>.
\<close>

definition Lock :: "Semaphore \<Rightarrow> error + Semaphore" where
  "Lock s = decrement s"

definition unLock :: "Semaphore \<Rightarrow> Semaphore" where
  "unLock s = increment s"

subsection \<open>MsgQueue\<close>

record 'a MsgQueue =
  nmax :: int
  queue :: "'a list"
  mutex :: Semaphore
  full :: Semaphore
  empty :: Semaphore

text \<open>The loop \<open>for (int i=0; i<nmax; i++) empty.increment();\<close> of the constructor.\<close>

function fill_empty :: "int \<Rightarrow> int \<Rightarrow> Semaphore \<Rightarrow> Semaphore" where
  "fill_empty i n e = (if i < n then fill_empty (i + 1) n (increment e) else e)"
  by pat_completeness auto
termination
  by (relation "measure (\<lambda>(i, n, e). nat (n - i))") auto

definition new_MsgQueue :: "int \<Rightarrow> 'a MsgQueue" where
  "new_MsgQueue n =
     (let m = max 1 n in
      \<lparr>nmax = m, queue = [], mutex = increment new_Semaphore, full = new_Semaphore,
       empty = fill_empty 0 m new_Semaphore\<rparr>)"

definition push :: "'a \<Rightarrow> 'a MsgQueue \<Rightarrow> error + 'a MsgQueue" where
  "push msg q =
     and_then (decrement (empty q)) (\<lambda>e.
     let q = q\<lparr>empty := e\<rparr> in
     and_then (Lock (mutex q)) (\<lambda>m.
     let q = q\<lparr>mutex := m\<rparr>;
         q = q\<lparr>queue := queue q @ [msg]\<rparr>;
         q = q\<lparr>mutex := unLock (mutex q)\<rparr>;
         q = q\<lparr>full := increment (full q)\<rparr>
     in Inr q))"

definition pop :: "'a MsgQueue \<Rightarrow> error + 'a MsgQueue \<times> 'a" where
  "pop q =
     and_then (decrement (full q)) (\<lambda>f.
     let q = q\<lparr>full := f\<rparr> in
     and_then (Lock (mutex q)) (\<lambda>m.
     let q = q\<lparr>mutex := m\<rparr> in
     (case queue q of
        [] \<Rightarrow> Inl Undefined
      | ret # rest \<Rightarrow>
          let q = q\<lparr>queue := rest\<rparr>;
              q = q\<lparr>mutex := unLock (mutex q)\<rparr>;
              q = q\<lparr>empty := increment (empty q)\<rparr>
          in Inr (q, ret))))"

subsection \<open>MsgQueueReplace\<close>

record 'a MsgQueueReplace =
  nmaxR :: int
  queueR :: "'a list"
  mutexR :: Semaphore
  fullR :: Semaphore

definition new_MsgQueueReplace :: "int \<Rightarrow> 'a MsgQueueReplace" where
  "new_MsgQueueReplace n =
     \<lparr>nmaxR = max 1 n, queueR = [], mutexR = increment new_Semaphore,
      fullR = new_Semaphore\<rparr>"

text \<open>
  The \<open>Lock\<close> of \<open>push\<close> is declared in the function's outermost block: the semaphore is
  released when the function returns, after \<open>full.increment()\<close>.
\<close>

definition pushR :: "'a \<Rightarrow> 'a MsgQueueReplace \<Rightarrow> error + 'a MsgQueueReplace" where
  "pushR msg q =
     and_then (Lock (mutexR q)) (\<lambda>m.
     let q = q\<lparr>mutexR := m\<rparr> in
     and_then
       (if nmaxR q \<le> int (length (queueR q))
        then (case queueR q of
                [] \<Rightarrow> Inl Undefined
              | old # rest \<Rightarrow> Inr (q\<lparr>queueR := rest @ [msg]\<rparr>))
        else (let q = q\<lparr>queueR := queueR q @ [msg]\<rparr>
              in Inr (q\<lparr>fullR := increment (fullR q)\<rparr>)))
       (\<lambda>q. Inr (q\<lparr>mutexR := unLock (mutexR q)\<rparr>)))"

definition popR :: "'a MsgQueueReplace \<Rightarrow> error + 'a MsgQueueReplace \<times> 'a" where
  "popR q =
     and_then (decrement (fullR q)) (\<lambda>f.
     let q = q\<lparr>fullR := f\<rparr> in
     and_then (Lock (mutexR q)) (\<lambda>m.
     let q = q\<lparr>mutexR := m\<rparr> in
     (case queueR q of
        [] \<Rightarrow> Inl Undefined
      | ret # rest \<Rightarrow>
          let q = q\<lparr>queueR := rest\<rparr>;
              q = q\<lparr>mutexR := unLock (mutexR q)\<rparr>
          in Inr (q, ret))))"

subsection \<open>Sequences of calls by one thread\<close>

datatype 'a call = Push 'a | Pop

text \<open>
  The calls are made one after the other; the values returned by \<open>pop\<close> are collected in
  the order of the calls. A call that blocks, with no other thread to release it, ends
  the run.
\<close>

fun calls :: "'a call list \<Rightarrow> 'a MsgQueue \<Rightarrow> error + 'a MsgQueue \<times> 'a list" where
  "calls [] q = Inr (q, [])"
| "calls (Push msg # cs) q =
     (case push msg q of Inl e \<Rightarrow> Inl e | Inr q' \<Rightarrow> calls cs q')"
| "calls (Pop # cs) q =
     (case pop q of
        Inl e \<Rightarrow> Inl e
      | Inr (q', ret) \<Rightarrow>
          (case calls cs q' of Inl e \<Rightarrow> Inl e | Inr (q'', rets) \<Rightarrow> Inr (q'', ret # rets)))"

fun callsR ::
  "'a call list \<Rightarrow> 'a MsgQueueReplace \<Rightarrow> error + 'a MsgQueueReplace \<times> 'a list" where
  "callsR [] q = Inr (q, [])"
| "callsR (Push msg # cs) q =
     (case pushR msg q of Inl e \<Rightarrow> Inl e | Inr q' \<Rightarrow> callsR cs q')"
| "callsR (Pop # cs) q =
     (case popR q of
        Inl e \<Rightarrow> Inl e
      | Inr (q', ret) \<Rightarrow>
          (case callsR cs q' of Inl e \<Rightarrow> Inl e | Inr (q'', rets) \<Rightarrow> Inr (q'', ret # rets)))"

subsection \<open>Threads and schedules\<close>

text \<open>
  A thread has the calls it still has to make, the place it is at in the call it is
  making, and the values its calls of \<open>pop\<close> have returned so far. The place carries the
  locals of the call: the argument \<open>msg\<close> of \<open>push\<close>, and \<open>ret\<close> of \<open>pop\<close> once it has
  been assigned.
\<close>

record ('a, 'p) thread =
  todo :: "'a call list"
  pc :: 'p
  got :: "'a list"

text \<open>
  One step of the system is one step of one of its threads, chosen by an index; a
  schedule is the list of the indices chosen. A schedule that picks a thread that cannot
  move ends in that thread's \<open>error\<close>: it is not an execution.
\<close>

definition sys_step ::
  "('q \<Rightarrow> 't \<Rightarrow> error + 'q \<times> 't) \<Rightarrow> nat \<Rightarrow> 'q \<times> 't list \<Rightarrow> error + 'q \<times> 't list" where
  "sys_step stp i s =
     (case s of (q, ts) \<Rightarrow>
        if i < length ts
        then (case stp q (ts ! i) of Inl e \<Rightarrow> Inl e | Inr (q', t') \<Rightarrow> Inr (q', ts[i := t']))
        else Inl Halted)"

fun run ::
  "('q \<Rightarrow> 't \<Rightarrow> error + 'q \<times> 't) \<Rightarrow> nat list \<Rightarrow> 'q \<times> 't list \<Rightarrow> error + 'q \<times> 't list" where
  "run stp [] s = Inr s"
| "run stp (i # sched) s =
     (case sys_step stp i s of Inl e \<Rightarrow> Inl e | Inr s' \<Rightarrow> run stp sched s')"

subsection \<open>MsgQueue, one statement at a time\<close>

text \<open>
  The places of a thread in \<open>MsgQueue::push\<close> and \<open>MsgQueue::pop\<close>, each named after
  the statement the thread executes next:
  \<^item> \<open>Idle\<close>: between calls; the next step is the first statement of the next call,
    \<open>empty.decrement()\<close> (line 91) or \<open>full.decrement()\<close> (line 112);
  \<^item> \<open>Push_lock\<close>: \<open>Lock lock(mutex)\<close> (line 94); \<open>Push_queue\<close>: \<open>queue.push(msg)\<close>
    (line 95); \<open>Push_unlock\<close>: the end of the block (line 96), where \<open>lock\<close> is
    destroyed; \<open>Push_full\<close>: \<open>full.increment()\<close> (line 98);
  \<^item> \<open>Pop_lock\<close>: \<open>Lock lock(mutex)\<close> (line 115); \<open>Pop_front\<close>: \<open>ret=queue.front()\<close>
    (line 116); \<open>Pop_queue\<close>: \<open>queue.pop()\<close> (line 117); \<open>Pop_unlock\<close>: the end of the
    block (line 118); \<open>Pop_empty\<close>: \<open>empty.increment()\<close> and \<open>return ret\<close> (lines 120
    and 122).
\<close>

datatype 'a pc =
    Idle
  | Push_lock 'a
  | Push_queue 'a
  | Push_unlock
  | Push_full
  | Pop_lock
  | Pop_front
  | Pop_queue 'a
  | Pop_unlock 'a
  | Pop_empty 'a

definition step ::
  "'a MsgQueue \<Rightarrow> ('a, 'a pc) thread \<Rightarrow> error + 'a MsgQueue \<times> ('a, 'a pc) thread" where
  "step q t =
     (case pc t of
        Idle \<Rightarrow>
          (case todo t of
             [] \<Rightarrow> Inl Halted
           | Push msg # cs \<Rightarrow>
               and_then (decrement (empty q)) (\<lambda>e.
                 Inr (q\<lparr>empty := e\<rparr>, t\<lparr>todo := cs, pc := Push_lock msg\<rparr>))
           | Pop # cs \<Rightarrow>
               and_then (decrement (full q)) (\<lambda>f.
                 Inr (q\<lparr>full := f\<rparr>, t\<lparr>todo := cs, pc := Pop_lock\<rparr>)))
      | Push_lock msg \<Rightarrow>
          and_then (Lock (mutex q)) (\<lambda>m. Inr (q\<lparr>mutex := m\<rparr>, t\<lparr>pc := Push_queue msg\<rparr>))
      | Push_queue msg \<Rightarrow> Inr (q\<lparr>queue := queue q @ [msg]\<rparr>, t\<lparr>pc := Push_unlock\<rparr>)
      | Push_unlock \<Rightarrow> Inr (q\<lparr>mutex := unLock (mutex q)\<rparr>, t\<lparr>pc := Push_full\<rparr>)
      | Push_full \<Rightarrow> Inr (q\<lparr>full := increment (full q)\<rparr>, t\<lparr>pc := Idle\<rparr>)
      | Pop_lock \<Rightarrow>
          and_then (Lock (mutex q)) (\<lambda>m. Inr (q\<lparr>mutex := m\<rparr>, t\<lparr>pc := Pop_front\<rparr>))
      | Pop_front \<Rightarrow>
          (case queue q of
             [] \<Rightarrow> Inl Undefined
           | ret # rest \<Rightarrow> Inr (q, t\<lparr>pc := Pop_queue ret\<rparr>))
      | Pop_queue ret \<Rightarrow>
          (case queue q of
             [] \<Rightarrow> Inl Undefined
           | old # rest \<Rightarrow> Inr (q\<lparr>queue := rest\<rparr>, t\<lparr>pc := Pop_unlock ret\<rparr>))
      | Pop_unlock ret \<Rightarrow> Inr (q\<lparr>mutex := unLock (mutex q)\<rparr>, t\<lparr>pc := Pop_empty ret\<rparr>)
      | Pop_empty ret \<Rightarrow>
          Inr (q\<lparr>empty := increment (empty q)\<rparr>, t\<lparr>pc := Idle, got := got t @ [ret]\<rparr>))"

text \<open>A thread that has made no call yet, and a fresh queue shared by such threads.\<close>

definition spawn :: "'a call list \<Rightarrow> ('a, 'a pc) thread" where
  "spawn cs = \<lparr>todo = cs, pc = Idle, got = []\<rparr>"

definition start :: "int \<Rightarrow> 'a call list list \<Rightarrow> 'a MsgQueue \<times> ('a, 'a pc) thread list" where
  "start n progs = (new_MsgQueue n, map spawn progs)"

subsection \<open>MsgQueueReplace, one statement at a time\<close>

text \<open>
  The places of a thread in \<open>MsgQueueReplace::push\<close> and \<open>MsgQueueReplace::pop\<close>:
  \<^item> \<open>IdleR\<close>: between calls; the next step is \<open>Lock lock(mutex)\<close> (line 165) or
    \<open>full.decrement()\<close> (line 190);
  \<^item> \<open>PushR_test\<close>: the test \<open>queue.size() >= nmax\<close> (line 167); \<open>PushR_drop\<close>:
    \<open>queue.pop()\<close> (line 169); \<open>PushR_put\<close>: \<open>queue.push(msg)\<close> (line 170);
    \<open>PushR_add\<close>: \<open>queue.push(msg)\<close> (line 174); \<open>PushR_full\<close>: \<open>full.increment()\<close>
    (line 175); \<open>PushR_unlock\<close>: the end of the function (line 177), where \<open>lock\<close> is
    destroyed;
  \<^item> \<open>PopR_lock\<close>: \<open>Lock lock(mutex)\<close> (line 193); \<open>PopR_front\<close>: \<open>ret=queue.front()\<close>
    (line 194); \<open>PopR_queue\<close>: \<open>queue.pop()\<close> (line 195); \<open>PopR_unlock\<close>: the end of
    the block (line 196) and \<open>return ret\<close> (line 198).
\<close>

datatype 'a pcR =
    IdleR
  | PushR_test 'a
  | PushR_drop 'a
  | PushR_put 'a
  | PushR_add 'a
  | PushR_full
  | PushR_unlock
  | PopR_lock
  | PopR_front
  | PopR_queue 'a
  | PopR_unlock 'a

definition stepR ::
  "'a MsgQueueReplace \<Rightarrow> ('a, 'a pcR) thread \<Rightarrow>
     error + 'a MsgQueueReplace \<times> ('a, 'a pcR) thread" where
  "stepR q t =
     (case pc t of
        IdleR \<Rightarrow>
          (case todo t of
             [] \<Rightarrow> Inl Halted
           | Push msg # cs \<Rightarrow>
               and_then (Lock (mutexR q)) (\<lambda>m.
                 Inr (q\<lparr>mutexR := m\<rparr>, t\<lparr>todo := cs, pc := PushR_test msg\<rparr>))
           | Pop # cs \<Rightarrow>
               and_then (decrement (fullR q)) (\<lambda>f.
                 Inr (q\<lparr>fullR := f\<rparr>, t\<lparr>todo := cs, pc := PopR_lock\<rparr>)))
      | PushR_test msg \<Rightarrow>
          Inr (q, t\<lparr>pc := (if nmaxR q \<le> int (length (queueR q))
                           then PushR_drop msg else PushR_add msg)\<rparr>)
      | PushR_drop msg \<Rightarrow>
          (case queueR q of
             [] \<Rightarrow> Inl Undefined
           | old # rest \<Rightarrow> Inr (q\<lparr>queueR := rest\<rparr>, t\<lparr>pc := PushR_put msg\<rparr>))
      | PushR_put msg \<Rightarrow> Inr (q\<lparr>queueR := queueR q @ [msg]\<rparr>, t\<lparr>pc := PushR_unlock\<rparr>)
      | PushR_add msg \<Rightarrow> Inr (q\<lparr>queueR := queueR q @ [msg]\<rparr>, t\<lparr>pc := PushR_full\<rparr>)
      | PushR_full \<Rightarrow> Inr (q\<lparr>fullR := increment (fullR q)\<rparr>, t\<lparr>pc := PushR_unlock\<rparr>)
      | PushR_unlock \<Rightarrow> Inr (q\<lparr>mutexR := unLock (mutexR q)\<rparr>, t\<lparr>pc := IdleR\<rparr>)
      | PopR_lock \<Rightarrow>
          and_then (Lock (mutexR q)) (\<lambda>m. Inr (q\<lparr>mutexR := m\<rparr>, t\<lparr>pc := PopR_front\<rparr>))
      | PopR_front \<Rightarrow>
          (case queueR q of
             [] \<Rightarrow> Inl Undefined
           | ret # rest \<Rightarrow> Inr (q, t\<lparr>pc := PopR_queue ret\<rparr>))
      | PopR_queue ret \<Rightarrow>
          (case queueR q of
             [] \<Rightarrow> Inl Undefined
           | old # rest \<Rightarrow> Inr (q\<lparr>queueR := rest\<rparr>, t\<lparr>pc := PopR_unlock ret\<rparr>))
      | PopR_unlock ret \<Rightarrow>
          Inr (q\<lparr>mutexR := unLock (mutexR q)\<rparr>, t\<lparr>pc := IdleR, got := got t @ [ret]\<rparr>))"

definition spawnR :: "'a call list \<Rightarrow> ('a, 'a pcR) thread" where
  "spawnR cs = \<lparr>todo = cs, pc = IdleR, got = []\<rparr>"

definition startR ::
  "int \<Rightarrow> 'a call list list \<Rightarrow> 'a MsgQueueReplace \<times> ('a, 'a pcR) thread list" where
  "startR n progs = (new_MsgQueueReplace n, map spawnR progs)"

section \<open>Measures and invariants\<close>

text \<open>
  What follows is not in the source: the quantities the proofs count, and the invariants
  they keep.
\<close>

subsection \<open>Programs\<close>

text \<open>The values a list of calls pushes, in order, and the number of its calls of \<open>pop\<close>.\<close>

fun pushed :: "'a call list \<Rightarrow> 'a list" where
  "pushed [] = []"
| "pushed (Push msg # cs) = msg # pushed cs"
| "pushed (Pop # cs) = pushed cs"

fun pops :: "'a call list \<Rightarrow> nat" where
  "pops [] = 0"
| "pops (Push msg # cs) = pops cs"
| "pops (Pop # cs) = Suc (pops cs)"

text \<open>A thread that only pushes or only pops: a producer or a consumer.\<close>

definition pure :: "'a call list \<Rightarrow> bool" where
  "pure cs \<longleftrightarrow> pops cs = 0 \<or> pushed cs = []"

text \<open>
  The scenario of the spec's test: one producer thread for each value, each pushing its
  value once, and one consumer thread, the last, popping as many times as there are
  values.
\<close>

definition producers_consumer :: "'a list \<Rightarrow> 'a call list list" where
  "producers_consumer vs = map (\<lambda>v. [Push v]) vs @ [replicate (length vs) Pop]"

text \<open>The sum of a quantity over the threads.\<close>

definition total :: "('t \<Rightarrow> 'b::comm_monoid_add) \<Rightarrow> 't list \<Rightarrow> 'b" where
  "total w ts = sum_list (map w ts)"

subsection \<open>MsgQueue\<close>

text \<open>
  \<open>in_cs\<close>: the thread is between the construction of its \<open>Lock\<close> and its destruction.
  \<open>slot_held\<close>: the thread has taken an \<open>empty\<close> permit and not yet pushed, or has popped
  and not yet given the permit back. \<open>item_held\<close>: the thread has pushed and not yet
  released a \<open>full\<close> permit, or has taken one and not yet popped.
\<close>

fun in_cs :: "'a pc \<Rightarrow> nat" where
  "in_cs (Push_queue msg) = 1"
| "in_cs Push_unlock = 1"
| "in_cs Pop_front = 1"
| "in_cs (Pop_queue ret) = 1"
| "in_cs (Pop_unlock ret) = 1"
| "in_cs p = 0"

fun slot_held :: "'a pc \<Rightarrow> nat" where
  "slot_held (Push_lock msg) = 1"
| "slot_held (Push_queue msg) = 1"
| "slot_held (Pop_unlock ret) = 1"
| "slot_held (Pop_empty ret) = 1"
| "slot_held p = 0"

fun item_held :: "'a pc \<Rightarrow> nat" where
  "item_held Push_unlock = 1"
| "item_held Push_full = 1"
| "item_held Pop_lock = 1"
| "item_held Pop_front = 1"
| "item_held (Pop_queue ret) = 1"
| "item_held p = 0"

text \<open>Between \<open>ret=queue.front()\<close> and \<open>queue.pop()\<close> the head of the queue is \<open>ret\<close>.\<close>

fun front_ok :: "'a list \<Rightarrow> 'a pc \<Rightarrow> bool" where
  "front_ok xs (Pop_queue ret) = (case xs of [] \<Rightarrow> False | x # rest \<Rightarrow> x = ret)"
| "front_ok xs p = True"

definition inv_sys :: "'a MsgQueue \<times> ('a, 'a pc) thread list \<Rightarrow> bool" where
  "inv_sys s =
     (case s of (q, ts) \<Rightarrow>
        1 \<le> nmax q \<and>
        mutex q + total (\<lambda>t. in_cs (pc t)) ts = 1 \<and>
        int (empty q + total (\<lambda>t. slot_held (pc t)) ts + length (queue q)) = nmax q \<and>
        length (queue q) = full q + total (\<lambda>t. item_held (pc t)) ts \<and>
        list_all (\<lambda>t. front_ok (queue q) (pc t)) ts)"

text \<open>No call is in progress.\<close>

definition quiescent :: "('a, 'a pc) thread list \<Rightarrow> bool" where
  "quiescent ts = list_all (\<lambda>t. pc t = Idle) ts"

text \<open>The invariant between calls.\<close>

definition inv_rest :: "'a MsgQueue \<Rightarrow> bool" where
  "inv_rest q \<longleftrightarrow>
     1 \<le> nmax q \<and> mutex q = 1 \<and> int (empty q + length (queue q)) = nmax q \<and>
     full q = length (queue q)"

text \<open>The thread has made all its calls.\<close>

definition finished :: "('a, 'a pc) thread \<Rightarrow> bool" where
  "finished t \<longleftrightarrow> todo t = [] \<and> pc t = Idle"

text \<open>The places where the thread reads or removes the head of the queue.\<close>

fun reads_front :: "'a pc \<Rightarrow> bool" where
  "reads_front Pop_front = True"
| "reads_front (Pop_queue ret) = True"
| "reads_front p = False"

text \<open>
  Where the messages are. \<open>in_flight\<close>: the message a thread holds in a local, outside
  the queue: the argument of \<open>push\<close> before \<open>queue.push(msg)\<close>, and \<open>ret\<close> after
  \<open>queue.pop()\<close>. \<open>carried\<close>: the messages a thread has got, holds, or has yet to push.
  \<open>npops\<close>: the calls of \<open>pop\<close> a thread has finished, is in, or has yet to make.
\<close>

fun in_flight :: "'a pc \<Rightarrow> 'a list" where
  "in_flight (Push_lock msg) = [msg]"
| "in_flight (Push_queue msg) = [msg]"
| "in_flight (Pop_unlock ret) = [ret]"
| "in_flight (Pop_empty ret) = [ret]"
| "in_flight p = []"

fun popping :: "'a pc \<Rightarrow> nat" where
  "popping Pop_lock = 1"
| "popping Pop_front = 1"
| "popping (Pop_queue ret) = 1"
| "popping (Pop_unlock ret) = 1"
| "popping (Pop_empty ret) = 1"
| "popping p = 0"

definition carried :: "('a, 'a pc) thread \<Rightarrow> 'a multiset" where
  "carried t = mset (got t) + mset (in_flight (pc t)) + mset (pushed (todo t))"

definition npops :: "('a, 'a pc) thread \<Rightarrow> nat" where
  "npops t = length (got t) + popping (pc t) + pops (todo t)"

definition conserved ::
  "'a call list list \<Rightarrow> 'a MsgQueue \<times> ('a, 'a pc) thread list \<Rightarrow> bool" where
  "conserved progs s =
     (case s of (q, ts) \<Rightarrow>
        inv_sys (q, ts) \<and>
        mset (queue q) + total carried ts = total (\<lambda>cs. mset (pushed cs)) progs \<and>
        map npops ts = map pops progs)"

text \<open>
  One producer, the first thread, and one consumer, the second: the messages, in the
  order pushed, are those the consumer has got, then the one it holds, then the queue,
  then the one the producer holds, then those it has yet to push.
\<close>

fun push_pc :: "'a pc \<Rightarrow> bool" where
  "push_pc Idle = True"
| "push_pc (Push_lock msg) = True"
| "push_pc (Push_queue msg) = True"
| "push_pc Push_unlock = True"
| "push_pc Push_full = True"
| "push_pc p = False"

definition producer :: "('a, 'a pc) thread \<Rightarrow> bool" where
  "producer t \<longleftrightarrow> push_pc (pc t) \<and> pops (todo t) = 0"

definition consumer :: "('a, 'a pc) thread \<Rightarrow> bool" where
  "consumer t \<longleftrightarrow> (pc t = Idle \<or> popping (pc t) = 1) \<and> pushed (todo t) = []"

definition fifo :: "'a list \<Rightarrow> 'a MsgQueue \<times> ('a, 'a pc) thread list \<Rightarrow> bool" where
  "fifo vs s =
     (case s of
        (q, [p, c]) \<Rightarrow>
          producer p \<and> consumer c \<and> front_ok (queue q) (pc c) \<and>
          got c @ in_flight (pc c) @ queue q @ in_flight (pc p) @ pushed (todo p) = vs
      | _ \<Rightarrow> False)"

text \<open>
  The statements a thread has yet to execute: those left of its call, five for each
  \<open>push\<close> and six for each \<open>pop\<close> it has yet to make.
\<close>

fun remaining :: "'a pc \<Rightarrow> nat" where
  "remaining Idle = 0"
| "remaining (Push_lock msg) = 4"
| "remaining (Push_queue msg) = 3"
| "remaining Push_unlock = 2"
| "remaining Push_full = 1"
| "remaining Pop_lock = 5"
| "remaining Pop_front = 4"
| "remaining (Pop_queue ret) = 3"
| "remaining (Pop_unlock ret) = 2"
| "remaining (Pop_empty ret) = 1"

definition work :: "('a, 'a pc) thread \<Rightarrow> nat" where
  "work t = remaining (pc t) + 5 * length (pushed (todo t)) + 6 * pops (todo t)"

text \<open>Producers and consumers, with as many calls of \<open>pop\<close> as of \<open>push\<close> in all.\<close>

definition draining ::
  "'a call list list \<Rightarrow> 'a MsgQueue \<times> ('a, 'a pc) thread list \<Rightarrow> bool" where
  "draining progs s \<longleftrightarrow>
     conserved progs s \<and> list_all (\<lambda>t. pure (todo t)) (snd s) \<and>
     total pops progs = total (\<lambda>cs. length (pushed cs)) progs"

subsection \<open>MsgQueueReplace\<close>

text \<open>
  \<open>in_csR\<close>: the thread holds the mutex. \<open>droppedR\<close>: the thread has removed the oldest
  message and not yet appended its own. \<open>item_heldR\<close>: the thread has appended and not
  yet released a \<open>full\<close> permit, or has taken one and not yet popped.
\<close>

fun in_csR :: "'a pcR \<Rightarrow> nat" where
  "in_csR IdleR = 0"
| "in_csR PopR_lock = 0"
| "in_csR p = 1"

fun droppedR :: "'a pcR \<Rightarrow> nat" where
  "droppedR (PushR_put msg) = 1"
| "droppedR p = 0"

fun item_heldR :: "'a pcR \<Rightarrow> nat" where
  "item_heldR PushR_full = 1"
| "item_heldR PopR_lock = 1"
| "item_heldR PopR_front = 1"
| "item_heldR (PopR_queue ret) = 1"
| "item_heldR p = 0"

text \<open>
  What a thread that holds the mutex knows of the queue: the outcome of its test of the
  size, and the head it has read.
\<close>

fun localR :: "int \<Rightarrow> 'a list \<Rightarrow> 'a pcR \<Rightarrow> bool" where
  "localR n xs (PushR_drop msg) = (n \<le> int (length xs))"
| "localR n xs (PushR_put msg) = (int (length xs) < n)"
| "localR n xs (PushR_add msg) = (int (length xs) < n)"
| "localR n xs (PopR_queue ret) = (case xs of [] \<Rightarrow> False | x # rest \<Rightarrow> x = ret)"
| "localR n xs p = True"

definition inv_sysR :: "'a MsgQueueReplace \<times> ('a, 'a pcR) thread list \<Rightarrow> bool" where
  "inv_sysR s =
     (case s of (q, ts) \<Rightarrow>
        1 \<le> nmaxR q \<and>
        mutexR q + total (\<lambda>t. in_csR (pc t)) ts = 1 \<and>
        int (length (queueR q)) \<le> nmaxR q \<and>
        length (queueR q) + total (\<lambda>t. droppedR (pc t)) ts =
          fullR q + total (\<lambda>t. item_heldR (pc t)) ts \<and>
        list_all (\<lambda>t. localR (nmaxR q) (queueR q) (pc t)) ts)"

definition quiescentR :: "('a, 'a pcR) thread list \<Rightarrow> bool" where
  "quiescentR ts = list_all (\<lambda>t. pc t = IdleR) ts"

text \<open>The invariant between calls.\<close>

definition inv_restR :: "'a MsgQueueReplace \<Rightarrow> bool" where
  "inv_restR q \<longleftrightarrow>
     1 \<le> nmaxR q \<and> mutexR q = 1 \<and> int (length (queueR q)) \<le> nmaxR q \<and>
     fullR q = length (queueR q)"

text \<open>The places of \<open>push\<close>, and a thread that is in \<open>push\<close> or about to call it.\<close>

fun push_pcR :: "'a pcR \<Rightarrow> bool" where
  "push_pcR (PushR_test msg) = True"
| "push_pcR (PushR_drop msg) = True"
| "push_pcR (PushR_put msg) = True"
| "push_pcR (PushR_add msg) = True"
| "push_pcR PushR_full = True"
| "push_pcR PushR_unlock = True"
| "push_pcR p = False"

definition pushingR :: "('a, 'a pcR) thread \<Rightarrow> bool" where
  "pushingR t \<longleftrightarrow>
     (case pc t of
        IdleR \<Rightarrow> (case todo t of Push msg # cs \<Rightarrow> True | _ \<Rightarrow> False)
      | p \<Rightarrow> push_pcR p)"

text \<open>The places where the thread reads or removes the head of the queue.\<close>

fun reads_frontR :: "'a pcR \<Rightarrow> bool" where
  "reads_frontR (PushR_drop msg) = True"
| "reads_frontR PopR_front = True"
| "reads_frontR (PopR_queue ret) = True"
| "reads_frontR p = False"

section \<open>Basic facts\<close>

lemma decrement_simps [simp]:
  "decrement 0 = Inl Blocks"
  "decrement (Suc n) = Inr n"
  "0 < s \<Longrightarrow> decrement s = Inr (s - 1)"
  by (simp_all add: decrement_def)

lemma and_then_simps [simp]:
  "and_then (Inl e) f = Inl e"
  "and_then (Inr x) f = f x"
  by (simp_all add: and_then_def)

lemma and_then_Inr: "and_then r f = Inr y \<longleftrightarrow> (\<exists>x. r = Inr x \<and> f x = Inr y)"
  by (cases r) simp_all

lemma decrement_Inr: "decrement s = Inr s' \<longleftrightarrow> 0 < s \<and> s' = s - 1"
  by (auto simp: decrement_def)

lemma error_cases: "e = Blocks \<or> e = Undefined \<or> e = Halted"
  by (cases e) simp_all

subsection \<open>Sums over the threads\<close>

lemma total_Nil [simp]: "total w [] = 0"
  by (simp add: total_def)

lemma total_Cons [simp]: "total w (t # ts) = w t + total w ts"
  by (simp add: total_def)

lemma total_append [simp]: "total w (xs @ ys) = total w xs + total w ys"
  by (simp add: total_def)

lemma total_map: "total w (map f xs) = total (\<lambda>x. w (f x)) xs"
  by (simp add: total_def comp_def)

lemma total_sum_list: "total w xs = sum_list (map w xs)"
  by (simp add: total_def)

lemma total_update: "i < length ts \<Longrightarrow> total w (ts[i := t]) + w (ts ! i) = total w ts + w t"
proof (induction ts arbitrary: i)
  case Nil
  then show ?case by simp
next
  case (Cons x xs)
  show ?case
  proof (cases i)
    case 0
    then show ?thesis by (simp add: ac_simps)
  next
    case (Suc j)
    with Cons.prems have "j < length xs" by simp
    from Cons.IH [OF this] Suc show ?thesis by (simp add: add.assoc)
  qed
qed

lemma total_ge_nth: "i < length ts \<Longrightarrow> (w (ts ! i) :: nat) \<le> total w ts"
proof (induction ts arbitrary: i)
  case Nil
  then show ?case by simp
next
  case (Cons x xs)
  then show ?case by (cases i) (auto intro: le_trans trans_le_add2)
qed

lemma total_ge_two:
  "i < length ts \<Longrightarrow> j < length ts \<Longrightarrow> i \<noteq> j \<Longrightarrow> (w (ts ! i) :: nat) + w (ts ! j) \<le> total w ts"
proof (induction ts arbitrary: i j)
  case Nil
  then show ?case by simp
next
  case (Cons x xs)
  show ?case
  proof (cases i)
    case i0: 0
    with Cons.prems obtain j' where j: "j = Suc j'" "j' < length xs"
      by (cases j) auto
    from total_ge_nth [OF j(2), of w] i0 j show ?thesis by simp
  next
    case iS: (Suc i')
    show ?thesis
    proof (cases j)
      case 0
      from Cons.prems iS have "i' < length xs" by simp
      from total_ge_nth [OF this, of w] iS 0 show ?thesis by simp
    next
      case (Suc j')
      with iS Cons.prems have "i' < length xs" "j' < length xs" "i' \<noteq> j'" by auto
      from Cons.IH [OF this] iS Suc show ?thesis by simp
    qed
  qed
qed

lemma total_zero: "total w ts = (0::nat) \<longleftrightarrow> list_all (\<lambda>t. w t = 0) ts"
  by (induction ts) auto

lemma total_pos_nth: "(0::nat) < total w ts \<Longrightarrow> \<exists>j<length ts. 0 < w (ts ! j)"
proof (induction ts)
  case Nil
  then show ?case by simp
next
  case (Cons x xs)
  show ?case
  proof (cases "0 < w x")
    case True
    then have "0 < w ((x # xs) ! 0)" by simp
    then show ?thesis by blast
  next
    case False
    with Cons.prems have "0 < total w xs" by simp
    from Cons.IH [OF this] obtain j where "j < length xs" "0 < w (xs ! j)" by blast
    then have "Suc j < length (x # xs)" "0 < w ((x # xs) ! Suc j)" by simp_all
    then show ?thesis by blast
  qed
qed

lemma total_mono: "(\<And>t. (w t :: nat) \<le> w' t) \<Longrightarrow> total w ts \<le> total w' ts"
  by (induction ts) (simp_all add: add_mono)

lemma total_add: "total (\<lambda>t. f t + g t) ts = total f ts + (total g ts :: nat)"
  by (induction ts) simp_all

lemma total_cong: "(\<And>t. t \<in> set ts \<Longrightarrow> f t = g t) \<Longrightarrow> total f ts = total g ts"
  by (induction ts) simp_all

lemma size_total: "size (total w xs :: 'a multiset) = total (\<lambda>x. size (w x)) xs"
  by (induction xs) simp_all

lemma list_all_update: "list_all P xs \<Longrightarrow> P x \<Longrightarrow> list_all P (xs[i := x])"
  by (auto simp: list_all_iff dest!: set_update_subset_insert [THEN subsetD])

subsection \<open>Schedules\<close>

lemma sys_step_Inr:
  "sys_step stp i (q, ts) = Inr s' \<longleftrightarrow>
     i < length ts \<and> (\<exists>q' t'. stp q (ts ! i) = Inr (q', t') \<and> s' = (q', ts[i := t']))"
  by (auto simp: sys_step_def split: sum.splits)

lemma sys_step_Inl:
  "sys_step stp i (q, ts) = Inl e \<longleftrightarrow>
     (if i < length ts then stp q (ts ! i) = Inl e else e = Halted)"
  by (auto simp: sys_step_def split: sum.splits)

lemma sys_step_single:
  "sys_step stp 0 (q, [t]) = (case stp q t of Inl e \<Rightarrow> Inl e | Inr (q', t') \<Rightarrow> Inr (q', [t']))"
  by (simp add: sys_step_def split: sum.splits)

lemma run_append:
  "run stp (xs @ ys) s = (case run stp xs s of Inl e \<Rightarrow> Inl e | Inr s' \<Rightarrow> run stp ys s')"
  by (induction xs arbitrary: s) (auto split: sum.splits)

text \<open>
  A property that holds at the start and that every step keeps holds after every
  schedule; an error that no step from a state with the property gives is the outcome of
  no schedule.
\<close>

lemma run_invariant:
  assumes step: "\<And>i s s'. P s \<Longrightarrow> sys_step stp i s = Inr s' \<Longrightarrow> P s'"
  shows "P s \<Longrightarrow> run stp sched s = Inr s' \<Longrightarrow> P s'"
proof (induction sched arbitrary: s)
  case Nil
  then show ?case by simp
next
  case (Cons i sched)
  from Cons.prems(2) obtain s1 where s1: "sys_step stp i s = Inr s1" "run stp sched s1 = Inr s'"
    by (cases "sys_step stp i s") auto
  from step [OF Cons.prems(1) s1(1)] have "P s1" .
  from Cons.IH [OF this s1(2)] show ?case .
qed

lemma run_error:
  assumes step: "\<And>i s s'. P s \<Longrightarrow> sys_step stp i s = Inr s' \<Longrightarrow> P s'"
    and err: "\<And>i s. P s \<Longrightarrow> sys_step stp i s \<noteq> Inl e"
  shows "P s \<Longrightarrow> run stp sched s \<noteq> Inl e"
proof (induction sched arbitrary: s)
  case Nil
  then show ?case by simp
next
  case (Cons i sched)
  show ?case
  proof (cases "sys_step stp i s")
    case (Inl e')
    with err [OF Cons.prems, of i] show ?thesis by auto
  next
    case (Inr s1)
    from step [OF Cons.prems Inr] have "P s1" .
    from Cons.IH [OF this] Inr show ?thesis by simp
  qed
qed

subsection \<open>Programs\<close>

lemma pops_0_cases: "pops cs = 0 \<Longrightarrow> cs = [] \<or> (\<exists>msg cs'. cs = Push msg # cs' \<and> pops cs' = 0)"
  by (cases cs rule: pops.cases) simp_all

lemma pushed_Nil_cases: "pushed cs = [] \<Longrightarrow> cs = [] \<or> (\<exists>cs'. cs = Pop # cs' \<and> pushed cs' = [])"
  by (cases cs rule: pushed.cases) simp_all

lemma pushed_map_Push [simp]: "pushed (map Push vs) = vs"
  by (induction vs) simp_all

lemma pops_map_Push [simp]: "pops (map Push vs) = 0"
  by (induction vs) simp_all

lemma pushed_replicate_Pop [simp]: "pushed (replicate m Pop) = []"
  by (induction m) simp_all

lemma pops_replicate_Pop [simp]: "pops (replicate m Pop) = m"
  by (induction m) simp_all

lemma pure_Cons: "pure (c # cs) \<Longrightarrow> pure cs"
  by (cases c) (auto simp: pure_def)

lemma producers_pushed: "total (\<lambda>cs. mset (pushed cs)) (map (\<lambda>v. [Push v]) vs) = mset vs"
  by (induction vs) simp_all

lemma producers_pushed_length: "total (\<lambda>cs. length (pushed cs)) (map (\<lambda>v. [Push v]) vs) = length vs"
  by (induction vs) simp_all

lemma producers_pops: "map pops (map (\<lambda>v. [Push v]) vs) = replicate (length vs) 0"
  by (induction vs) simp_all

lemma total_replicate_0: "total (\<lambda>x. x) (replicate m (0::nat)) = 0"
  by (induction m) simp_all

lemma total_pops: "total pops progs = total (\<lambda>x. x) (map pops progs)"
  by (simp add: total_map)

lemma pure_producers_consumer: "list_all pure (producers_consumer vs)"
  by (simp add: producers_consumer_def pure_def list_all_iff)

lemma balanced_producers_consumer:
  "total pops (producers_consumer vs) = total (\<lambda>cs. length (pushed cs)) (producers_consumer vs)"
proof -
  have "map pops (producers_consumer vs) = replicate (length vs) 0 @ [length vs]"
    unfolding producers_consumer_def map_append producers_pops by simp
  then have "total pops (producers_consumer vs) = length vs"
    by (simp add: total_pops total_replicate_0)
  then show ?thesis
    by (simp add: producers_consumer_def producers_pushed_length)
qed

section \<open>The constructors\<close>

lemma fill_empty_eq: "i \<le> n \<Longrightarrow> fill_empty i n e = e + nat (n - i)"
proof (induction i n e rule: fill_empty.induct)
  case (1 i n e)
  show ?case
  proof (cases "i < n")
    case True
    then have "fill_empty i n e = fill_empty (i + 1) n (increment e)"
      by simp
    also have "\<dots> = increment e + nat (n - (i + 1))"
      using True "1.IH" by simp
    also have "\<dots> = e + nat (n - i)"
      using True by (simp add: increment_def nat_diff_distrib)
    finally show ?thesis .
  next
    case False
    with "1.prems" show ?thesis by simp
  qed
qed

lemma new_MsgQueue_fields:
  "nmax (new_MsgQueue n) = max 1 n"
  "queue (new_MsgQueue n) = []"
  "mutex (new_MsgQueue n) = 1"
  "full (new_MsgQueue n) = 0"
  "empty (new_MsgQueue n) = nat (max 1 n)"
  by (simp_all add: new_MsgQueue_def Let_def increment_def new_Semaphore_def fill_empty_eq
      del: fill_empty.simps)

lemma new_MsgQueueReplace_fields:
  "nmaxR (new_MsgQueueReplace n) = max 1 n"
  "queueR (new_MsgQueueReplace n) = []"
  "mutexR (new_MsgQueueReplace n) = 1"
  "fullR (new_MsgQueueReplace n) = 0"
  by (simp_all add: new_MsgQueueReplace_def increment_def new_Semaphore_def)

text \<open>
  Claim C7. For every integer \<open>n\<close>, \<open>MsgQueue(n)\<close> and \<open>MsgQueueReplace(n)\<close> have the
  capacity \<open>nmax = max(1, n)\<close>: a requested capacity of zero or less gives capacity 1, any
  other is kept. The constructor has no outcome but a queue, so nothing is rejected. The
  blocking queue starts with exactly \<open>nmax\<close> permits in \<open>empty\<close>.
\<close>

theorem capacity_clamp:
  "nmax (new_MsgQueue n) = max 1 n \<and>
   nmaxR (new_MsgQueueReplace n) = max 1 n \<and>
   (if n \<le> 0 then nmax (new_MsgQueue n) = 1 \<and> nmaxR (new_MsgQueueReplace n) = 1
    else nmax (new_MsgQueue n) = n \<and> nmaxR (new_MsgQueueReplace n) = n) \<and>
   int (empty (new_MsgQueue n)) = nmax (new_MsgQueue n)"
  by (simp add: new_MsgQueue_fields new_MsgQueueReplace_fields)

section \<open>The calls, from first statement to return\<close>

lemma push_eq:
  "push msg q =
     (if empty q = 0 \<or> mutex q = 0 then Inl Blocks
      else Inr (q\<lparr>empty := empty q - 1, queue := queue q @ [msg], full := full q + 1\<rparr>))"
  by (cases "empty q"; cases "mutex q")
    (simp_all add: push_def Lock_def unLock_def increment_def Let_def)

lemma pop_eq:
  "pop q =
     (if full q = 0 \<or> mutex q = 0 then Inl Blocks
      else (case queue q of
              [] \<Rightarrow> Inl Undefined
            | ret # rest \<Rightarrow>
                Inr (q\<lparr>full := full q - 1, queue := rest, empty := empty q + 1\<rparr>, ret)))"
  by (cases "full q"; cases "mutex q")
    (simp_all add: pop_def Lock_def unLock_def increment_def Let_def split: list.splits)

lemma pushR_eq:
  "pushR msg q =
     (if mutexR q = 0 then Inl Blocks
      else if nmaxR q \<le> int (length (queueR q))
      then (case queueR q of
              [] \<Rightarrow> Inl Undefined
            | old # rest \<Rightarrow> Inr (q\<lparr>queueR := rest @ [msg]\<rparr>))
      else Inr (q\<lparr>queueR := queueR q @ [msg], fullR := fullR q + 1\<rparr>))"
  by (cases "mutexR q")
    (simp_all add: pushR_def Lock_def unLock_def increment_def Let_def split: list.splits)

lemma popR_eq:
  "popR q =
     (if fullR q = 0 \<or> mutexR q = 0 then Inl Blocks
      else (case queueR q of
              [] \<Rightarrow> Inl Undefined
            | ret # rest \<Rightarrow> Inr (q\<lparr>fullR := fullR q - 1, queueR := rest\<rparr>, ret)))"
  by (cases "fullR q"; cases "mutexR q")
    (simp_all add: popR_def Lock_def unLock_def increment_def Let_def split: list.splits)

section \<open>MsgQueue: the invariant of the interleaved system\<close>

lemmas step_splits = pc.splits list.splits call.splits

lemma step_thread:
  assumes "step q t = Inr (q', t')"
  shows "nmax q' = nmax q"
    and "mutex q' + in_cs (pc t') = mutex q + in_cs (pc t)"
    and "empty q' + slot_held (pc t') + length (queue q') =
         empty q + slot_held (pc t) + length (queue q)"
    and "length (queue q') + full q + item_held (pc t) =
         length (queue q) + full q' + item_held (pc t')"
  using assms
  by (auto simp: step_def Lock_def unLock_def increment_def and_then_Inr decrement_Inr
      split: pc.splits list.splits call.splits)

lemma step_queue_change:
  "step q t = Inr (q', t') \<Longrightarrow> queue q' \<noteq> queue q \<Longrightarrow> in_cs (pc t) = 1"
  by (auto simp: step_def Lock_def unLock_def and_then_Inr split: step_splits)

lemma step_front_ok:
  "step q t = Inr (q', t') \<Longrightarrow> front_ok (queue q) (pc t) \<Longrightarrow> front_ok (queue q') (pc t')"
  by (auto simp: step_def Lock_def unLock_def and_then_Inr split: step_splits)

lemma step_Undefined:
  "step q t = Inl Undefined \<Longrightarrow> queue q = [] \<and> item_held (pc t) = 1"
  by (auto simp: step_def Lock_def decrement_def and_then_def split: step_splits if_splits)

lemma step_Blocks:
  "step q t = Inl Blocks \<longleftrightarrow>
     (pc t = Idle \<and> ((\<exists>msg cs. todo t = Push msg # cs) \<and> empty q = 0 \<or>
                      (\<exists>cs. todo t = Pop # cs) \<and> full q = 0)) \<or>
     (((\<exists>msg. pc t = Push_lock msg) \<or> pc t = Pop_lock) \<and> mutex q = 0)"
  by (auto simp: step_def Lock_def decrement_def and_then_def split: step_splits)

lemma step_Halted: "step q t = Inl Halted \<longleftrightarrow> pc t = Idle \<and> todo t = []"
  by (auto simp: step_def Lock_def decrement_def and_then_def split: step_splits)

lemma step_in_cs: "in_cs (pc t) = 1 \<Longrightarrow> step q t \<noteq> Inl Blocks \<and> step q t \<noteq> Inl Halted"
  by (auto simp: step_Blocks step_Halted)

lemma step_permit:
  assumes "step q t = Inr (q', t')" and "full q' \<noteq> full q \<or> empty q' \<noteq> empty q"
  shows "in_cs (pc t) = 0" and "in_cs (pc t') = 0"
  using assms
  by (auto simp: step_def Lock_def unLock_def and_then_Inr split: step_splits)

lemma front_ok_not_cs: "in_cs p = 0 \<Longrightarrow> front_ok xs p"
  by (cases p) simp_all

lemma reads_front_held: "reads_front p \<Longrightarrow> item_held p = 1"
  by (cases p) simp_all

lemma exclusive:
  assumes "total (\<lambda>t. in_cs (pc t)) ts \<le> 1" and "i < length ts" and "in_cs (pc (ts ! i)) = 1"
    and "j < length ts" and "j \<noteq> i"
  shows "in_cs (pc (ts ! j)) = 0"
  using total_ge_two [OF assms(2,4), of "\<lambda>t. in_cs (pc t)"] assms by simp

lemma inv_sys_step:
  assumes "inv_sys s" and "sys_step step i s = Inr s'"
  shows "inv_sys s'"
proof -
  obtain q ts where s: "s = (q, ts)" by (cases s)
  from assms(2) s obtain q' t' where i: "i < length ts"
    and st: "step q (ts ! i) = Inr (q', t')" and s': "s' = (q', ts[i := t'])"
    by (auto simp: sys_step_Inr)
  let ?t = "ts ! i"
  from assms(1) s have n: "1 \<le> nmax q"
    and m: "mutex q + total (\<lambda>t. in_cs (pc t)) ts = 1"
    and e: "int (empty q + total (\<lambda>t. slot_held (pc t)) ts + length (queue q)) = nmax q"
    and f: "length (queue q) = full q + total (\<lambda>t. item_held (pc t)) ts"
    and h: "list_all (\<lambda>t. front_ok (queue q) (pc t)) ts"
    by (simp_all add: inv_sys_def)
  note th = step_thread [OF st]
  have n': "1 \<le> nmax q'" using n th(1) by simp
  have m': "mutex q' + total (\<lambda>t. in_cs (pc t)) (ts[i := t']) = 1"
    using m th(2) total_update [OF i, of "\<lambda>t. in_cs (pc t)" t'] by linarith
  have e': "int (empty q' + total (\<lambda>t. slot_held (pc t)) (ts[i := t']) + length (queue q')) = nmax q'"
    using e th(1,3) total_update [OF i, of "\<lambda>t. slot_held (pc t)" t'] by linarith
  have f': "length (queue q') = full q' + total (\<lambda>t. item_held (pc t)) (ts[i := t'])"
    using f th(4) total_update [OF i, of "\<lambda>t. item_held (pc t)" t'] by linarith
  have h': "list_all (\<lambda>t. front_ok (queue q') (pc t)) (ts[i := t'])"
    unfolding list_all_length
  proof (intro allI impI)
    fix j assume "j < length (ts[i := t'])"
    then have j: "j < length ts" by simp
    show "front_ok (queue q') (pc (ts[i := t'] ! j))"
    proof (cases "j = i")
      case True
      from h i have "front_ok (queue q) (pc ?t)" by (simp add: list_all_length)
      from step_front_ok [OF st this] True i show ?thesis by simp
    next
      case False
      show ?thesis
      proof (cases "queue q' = queue q")
        case True
        with h j False show ?thesis by (simp add: list_all_length)
      next
        case diff: False
        from step_queue_change [OF st diff] have "in_cs (pc ?t) = 1" .
        from exclusive [OF _ i this j False] m have "in_cs (pc (ts ! j)) = 0" by simp
        from front_ok_not_cs [OF this] False show ?thesis by simp
      qed
    qed
  qed
  from n' m' e' f' h' s' show ?thesis by (simp add: inv_sys_def)
qed

lemma inv_sys_no_Undefined:
  assumes "inv_sys s"
  shows "sys_step step i s \<noteq> Inl Undefined"
proof
  assume u: "sys_step step i s = Inl Undefined"
  obtain q ts where s: "s = (q, ts)" by (cases s)
  from u s have i: "i < length ts" and st: "step q (ts ! i) = Inl Undefined"
    by (auto simp: sys_step_Inl split: if_splits)
  from step_Undefined [OF st] have "queue q = []" "item_held (pc (ts ! i)) = 1" by simp_all
  moreover from assms s have "length (queue q) = full q + total (\<lambda>t. item_held (pc t)) ts"
    by (simp add: inv_sys_def)
  moreover note total_ge_nth [OF i, of "\<lambda>t. item_held (pc t)"]
  ultimately show False by simp
qed

lemma total_spawn [simp]:
  "total (\<lambda>t. in_cs (pc t)) (map spawn progs) = 0"
  "total (\<lambda>t. slot_held (pc t)) (map spawn progs) = 0"
  "total (\<lambda>t. item_held (pc t)) (map spawn progs) = 0"
  by (induction progs) (simp_all add: spawn_def)

lemma inv_sys_start: "inv_sys (start n progs)"
  by (simp add: inv_sys_def start_def new_MsgQueue_fields list_all_iff spawn_def)

lemma inv_sys_run: "run step sched (start n progs) = Inr s \<Longrightarrow> inv_sys s"
  using run_invariant [of inv_sys step, OF inv_sys_step inv_sys_start] .

lemma nmax_run:
  assumes "run step sched (start n progs) = Inr (q, ts)"
  shows "nmax q = max 1 n"
proof -
  let ?P = "\<lambda>s. nmax (fst s) = max 1 n"
  have "?P (q, ts)"
  proof (rule run_invariant [of ?P step, OF _ _ assms])
    fix i s s'
    assume "?P s" and "sys_step step i s = Inr s'"
    then show "?P s'"
      by (cases s) (auto simp: sys_step_Inr step_thread(1))
  next
    show "?P (start n progs)"
      by (simp add: start_def new_MsgQueue_fields)
  qed
  then show ?thesis by simp
qed

lemma run_no_Undefined: "run step sched (start n progs) \<noteq> Inl Undefined"
  using run_error [of inv_sys step Undefined, OF inv_sys_step inv_sys_no_Undefined inv_sys_start] .

lemma quiescent_totals:
  assumes "quiescent ts"
  shows "total (\<lambda>t. in_cs (pc t)) ts = 0"
    and "total (\<lambda>t. slot_held (pc t)) ts = 0"
    and "total (\<lambda>t. item_held (pc t)) ts = 0"
  using assms by (simp_all add: quiescent_def total_zero list_all_iff)

lemma inv_sys_quiescent: "inv_sys (q, ts) \<Longrightarrow> quiescent ts \<Longrightarrow> inv_rest q"
  by (simp add: inv_sys_def inv_rest_def quiescent_totals)

lemma bounds_run:
  assumes "run step sched (start n progs) = Inr (q, ts)"
  shows "0 \<le> int (length (queue q)) \<and> int (length (queue q)) \<le> nmax q \<and> nmax q = max 1 n \<and>
         (quiescent ts \<longrightarrow>
            int (full q) + int (empty q) = nmax q \<and> length (queue q) = full q)"
proof -
  note v = inv_sys_run [OF assms]
  from v have "int (length (queue q)) \<le> nmax q"
    by (simp add: inv_sys_def)
  moreover have "int (full q) + int (empty q) = nmax q \<and> length (queue q) = full q"
    if "quiescent ts"
    using inv_sys_quiescent [OF v that] by (simp add: inv_rest_def)
  ultimately show ?thesis
    using nmax_run [OF assms] by simp
qed

lemma mutual_exclusion:
  assumes "run step sched (start n progs) = Inr (q, ts)"
    and "i < length ts" and "j < length ts" and "i \<noteq> j"
  shows "in_cs (pc (ts ! i)) + in_cs (pc (ts ! j)) \<le> 1"
proof -
  from inv_sys_run [OF assms(1)] have "total (\<lambda>t. in_cs (pc t)) ts \<le> 1"
    by (simp add: inv_sys_def)
  with total_ge_two [OF assms(2-4), of "\<lambda>t. in_cs (pc t)"] show ?thesis by simp
qed

text \<open>While the mutex is taken, the thread that holds it can move.\<close>

lemma holder_moves:
  assumes "inv_sys (q, ts)" and "mutex q = 0"
  shows "\<exists>j<length ts. in_cs (pc (ts ! j)) = 1 \<and> (\<exists>s'. sys_step step j (q, ts) = Inr s')"
proof -
  from assms have "0 < total (\<lambda>t. in_cs (pc t)) ts" by (simp add: inv_sys_def)
  from total_pos_nth [OF this] obtain j where j: "j < length ts" "0 < in_cs (pc (ts ! j))"
    by blast
  then have c: "in_cs (pc (ts ! j)) = 1" by (cases "pc (ts ! j)") simp_all
  have "\<exists>s'. sys_step step j (q, ts) = Inr s'"
  proof (cases "sys_step step j (q, ts)")
    case (Inl e)
    with j(1) have "step q (ts ! j) = Inl e" by (simp add: sys_step_Inl)
    with step_in_cs [OF c, of q] error_cases [of e] have "e = Undefined" by auto
    with Inl inv_sys_no_Undefined [OF assms(1), of j] show ?thesis by simp
  next
    case (Inr s')
    then show ?thesis by blast
  qed
  with j(1) c show ?thesis by blast
qed

lemma blocked_reason:
  assumes r: "run step sched (start n progs) = Inr (q, ts)" and i: "i < length ts"
    and b: "sys_step step i (q, ts) = Inl Blocks"
  shows "(pc (ts ! i) = Idle \<and>
           ((\<exists>msg cs. todo (ts ! i) = Push msg # cs) \<and> empty q = 0 \<or>
            (\<exists>cs. todo (ts ! i) = Pop # cs) \<and> full q = 0)) \<or>
         (mutex q = 0 \<and> (\<exists>j<length ts. j \<noteq> i \<and> (\<exists>s'. sys_step step j (q, ts) = Inr s')))"
proof -
  from b i have sb: "step q (ts ! i) = Inl Blocks" by (simp add: sys_step_Inl)
  show ?thesis
  proof (cases "pc (ts ! i) = Idle")
    case True
    with sb show ?thesis by (auto simp: step_Blocks)
  next
    case False
    with sb have m: "mutex q = 0" by (auto simp: step_Blocks)
    from holder_moves [OF inv_sys_run [OF r] m] obtain j s' where j: "j < length ts"
      and js: "sys_step step j (q, ts) = Inr s'" by blast
    from js b have "j \<noteq> i" by auto
    with m j js show ?thesis by blast
  qed
qed

section \<open>MsgQueueReplace: the invariant of the interleaved system\<close>

lemmas stepR_splits = pcR.splits list.splits call.splits

lemma stepR_thread:
  assumes "stepR q t = Inr (q', t')"
  shows "nmaxR q' = nmaxR q"
    and "mutexR q' + in_csR (pc t') = mutexR q + in_csR (pc t)"
    and "length (queueR q') + droppedR (pc t') + fullR q + item_heldR (pc t) =
         length (queueR q) + droppedR (pc t) + fullR q' + item_heldR (pc t')"
  using assms
  by (auto simp: stepR_def Lock_def unLock_def increment_def and_then_Inr decrement_Inr
      split: stepR_splits)

lemma stepR_queue_change:
  "stepR q t = Inr (q', t') \<Longrightarrow> queueR q' \<noteq> queueR q \<Longrightarrow> in_csR (pc t) = 1"
  by (auto simp: stepR_def Lock_def unLock_def and_then_Inr split: stepR_splits)

lemma stepR_local:
  assumes "stepR q t = Inr (q', t')" and "localR (nmaxR q) (queueR q) (pc t)"
    and "int (length (queueR q)) \<le> nmaxR q"
  shows "localR (nmaxR q') (queueR q') (pc t')" and "int (length (queueR q')) \<le> nmaxR q'"
  using assms
  by (auto simp: stepR_def Lock_def unLock_def and_then_Inr split: stepR_splits)

lemma stepR_Undefined:
  "stepR q t = Inl Undefined \<Longrightarrow>
     queueR q = [] \<and> ((\<exists>msg. pc t = PushR_drop msg) \<or> pc t = PopR_front \<or> (\<exists>ret. pc t = PopR_queue ret))"
  by (auto simp: stepR_def Lock_def decrement_def and_then_def split: stepR_splits if_splits)

lemma stepR_Blocks:
  "stepR q t = Inl Blocks \<longleftrightarrow>
     (pc t = IdleR \<and> ((\<exists>msg cs. todo t = Push msg # cs) \<and> mutexR q = 0 \<or>
                       (\<exists>cs. todo t = Pop # cs) \<and> fullR q = 0)) \<or>
     (pc t = PopR_lock \<and> mutexR q = 0)"
  by (auto simp: stepR_def Lock_def decrement_def and_then_def split: stepR_splits)

lemma stepR_Halted: "stepR q t = Inl Halted \<longleftrightarrow> pc t = IdleR \<and> todo t = []"
  by (auto simp: stepR_def Lock_def decrement_def and_then_def split: stepR_splits)

lemma stepR_in_cs: "in_csR (pc t) = 1 \<Longrightarrow> stepR q t \<noteq> Inl Blocks \<and> stepR q t \<noteq> Inl Halted"
  by (auto simp: stepR_Blocks stepR_Halted)

lemma stepR_acquire:
  assumes "stepR q t = Inr (q', t')" and "fullR q' < fullR q"
  shows "in_csR (pc t) = 0" and "in_csR (pc t') = 0"
  using assms
  by (auto simp: stepR_def Lock_def unLock_def increment_def and_then_Inr split: stepR_splits)

lemma stepR_release:
  assumes "stepR q t = Inr (q', t')" and "fullR q < fullR q'"
  shows "in_csR (pc t) = 1" and "in_csR (pc t') = 1"
  using assms
  by (auto simp: stepR_def Lock_def unLock_def and_then_Inr decrement_Inr split: stepR_splits)

lemma localR_not_cs: "in_csR p = 0 \<Longrightarrow> localR n xs p"
  by (cases p) simp_all

lemma droppedR_in_cs: "droppedR p \<le> in_csR p"
  by (cases p) simp_all

lemma in_csR_cases: "in_csR p = 0 \<or> in_csR p = 1"
  by (cases p) simp_all

lemma exclusiveR:
  assumes "total (\<lambda>t. in_csR (pc t)) ts \<le> 1" and "i < length ts" and "in_csR (pc (ts ! i)) = 1"
    and "j < length ts" and "j \<noteq> i"
  shows "in_csR (pc (ts ! j)) = 0"
  using total_ge_two [OF assms(2,4), of "\<lambda>t. in_csR (pc t)"] assms by simp

lemma inv_sysR_step:
  assumes "inv_sysR s" and "sys_step stepR i s = Inr s'"
  shows "inv_sysR s'"
proof -
  obtain q ts where s: "s = (q, ts)" by (cases s)
  from assms(2) s obtain q' t' where i: "i < length ts"
    and st: "stepR q (ts ! i) = Inr (q', t')" and s': "s' = (q', ts[i := t'])"
    by (auto simp: sys_step_Inr)
  let ?t = "ts ! i"
  from assms(1) s have n: "1 \<le> nmaxR q"
    and m: "mutexR q + total (\<lambda>t. in_csR (pc t)) ts = 1"
    and b: "int (length (queueR q)) \<le> nmaxR q"
    and f: "length (queueR q) + total (\<lambda>t. droppedR (pc t)) ts =
          fullR q + total (\<lambda>t. item_heldR (pc t)) ts"
    and h: "list_all (\<lambda>t. localR (nmaxR q) (queueR q) (pc t)) ts"
    by (simp_all add: inv_sysR_def)
  note th = stepR_thread [OF st]
  from h i have lt: "localR (nmaxR q) (queueR q) (pc ?t)" by (simp add: list_all_length)
  note lo = stepR_local [OF st lt b]
  have n': "1 \<le> nmaxR q'" using n th(1) by simp
  have m': "mutexR q' + total (\<lambda>t. in_csR (pc t)) (ts[i := t']) = 1"
    using m th(2) total_update [OF i, of "\<lambda>t. in_csR (pc t)" t'] by linarith
  have f': "length (queueR q') + total (\<lambda>t. droppedR (pc t)) (ts[i := t']) =
          fullR q' + total (\<lambda>t. item_heldR (pc t)) (ts[i := t'])"
    using f th(3) total_update [OF i, of "\<lambda>t. droppedR (pc t)" t']
      total_update [OF i, of "\<lambda>t. item_heldR (pc t)" t'] by linarith
  have h': "list_all (\<lambda>t. localR (nmaxR q') (queueR q') (pc t)) (ts[i := t'])"
    unfolding list_all_length
  proof (intro allI impI)
    fix j assume "j < length (ts[i := t'])"
    then have j: "j < length ts" by simp
    show "localR (nmaxR q') (queueR q') (pc (ts[i := t'] ! j))"
    proof (cases "j = i")
      case True
      with lo(1) i show ?thesis by simp
    next
      case False
      show ?thesis
      proof (cases "queueR q' = queueR q")
        case True
        with h j False th(1) show ?thesis by (simp add: list_all_length)
      next
        case diff: False
        from stepR_queue_change [OF st diff] have "in_csR (pc ?t) = 1" .
        from exclusiveR [OF _ i this j False] m have "in_csR (pc (ts ! j)) = 0" by simp
        from localR_not_cs [OF this] False show ?thesis by simp
      qed
    qed
  qed
  from n' m' lo(2) f' h' s' show ?thesis by (simp add: inv_sysR_def)
qed

lemma inv_sysR_no_Undefined:
  assumes "inv_sysR s"
  shows "sys_step stepR i s \<noteq> Inl Undefined"
proof
  assume u: "sys_step stepR i s = Inl Undefined"
  obtain q ts where s: "s = (q, ts)" by (cases s)
  from u s have i: "i < length ts" and st: "stepR q (ts ! i) = Inl Undefined"
    by (auto simp: sys_step_Inl split: if_splits)
  let ?t = "ts ! i"
  from assms s have n: "1 \<le> nmaxR q"
    and m: "mutexR q + total (\<lambda>t. in_csR (pc t)) ts = 1"
    and f: "length (queueR q) + total (\<lambda>t. droppedR (pc t)) ts =
          fullR q + total (\<lambda>t. item_heldR (pc t)) ts"
    and h: "list_all (\<lambda>t. localR (nmaxR q) (queueR q) (pc t)) ts"
    by (simp_all add: inv_sysR_def)
  from h i have lt: "localR (nmaxR q) (queueR q) (pc ?t)" by (simp add: list_all_length)
  from stepR_Undefined [OF st] have e: "queueR q = []"
    and p: "(\<exists>msg. pc ?t = PushR_drop msg) \<or> pc ?t = PopR_front \<or> (\<exists>ret. pc ?t = PopR_queue ret)"
    by simp_all
  from p show False
  proof (elim disjE exE)
    fix msg assume "pc ?t = PushR_drop msg"
    with lt e n show False by simp
  next
    fix ret assume "pc ?t = PopR_queue ret"
    with lt e show False by simp
  next
    assume pf: "pc ?t = PopR_front"
    then have held: "item_heldR (pc ?t) = 1" and cs: "in_csR (pc ?t) = 1" and nd: "droppedR (pc ?t) = 0"
      by simp_all
    from total_ge_nth [OF i, of "\<lambda>t. item_heldR (pc t)"] held f e
    have "0 < total (\<lambda>t. droppedR (pc t)) ts" by simp
    from total_pos_nth [OF this] obtain j where j: "j < length ts" "0 < droppedR (pc (ts ! j))"
      by blast
    with nd have "j \<noteq> i" by auto
    from exclusiveR [OF _ i cs j(1) this] m have "in_csR (pc (ts ! j)) = 0" by simp
    with droppedR_in_cs [of "pc (ts ! j)"] j(2) show False by simp
  qed
qed

lemma total_spawnR [simp]:
  "total (\<lambda>t. in_csR (pc t)) (map spawnR progs) = 0"
  "total (\<lambda>t. droppedR (pc t)) (map spawnR progs) = 0"
  "total (\<lambda>t. item_heldR (pc t)) (map spawnR progs) = 0"
  by (induction progs) (simp_all add: spawnR_def)

lemma inv_sysR_start: "inv_sysR (startR n progs)"
  by (simp add: inv_sysR_def startR_def new_MsgQueueReplace_fields list_all_iff spawnR_def)

lemma inv_sysR_run: "run stepR sched (startR n progs) = Inr s \<Longrightarrow> inv_sysR s"
  using run_invariant [of inv_sysR stepR, OF inv_sysR_step inv_sysR_start] .

lemma runR_no_Undefined: "run stepR sched (startR n progs) \<noteq> Inl Undefined"
  using run_error [of inv_sysR stepR Undefined, OF inv_sysR_step inv_sysR_no_Undefined inv_sysR_start] .

lemma quiescentR_totals:
  assumes "quiescentR ts"
  shows "total (\<lambda>t. in_csR (pc t)) ts = 0"
    and "total (\<lambda>t. droppedR (pc t)) ts = 0"
    and "total (\<lambda>t. item_heldR (pc t)) ts = 0"
  using assms by (simp_all add: quiescentR_def total_zero list_all_iff)

lemma nmaxR_run:
  assumes "run stepR sched (startR n progs) = Inr (q, ts)"
  shows "nmaxR q = max 1 n"
proof -
  let ?P = "\<lambda>s. nmaxR (fst s) = max 1 n"
  have "?P (q, ts)"
  proof (rule run_invariant [of ?P stepR, OF _ _ assms])
    fix i s s'
    assume "?P s" and "sys_step stepR i s = Inr s'"
    then show "?P s'"
      by (cases s) (auto simp: sys_step_Inr stepR_thread(1))
  next
    show "?P (startR n progs)"
      by (simp add: startR_def new_MsgQueueReplace_fields)
  qed
  then show ?thesis by simp
qed

lemma boundsR_run:
  assumes "run stepR sched (startR n progs) = Inr (q, ts)"
  shows "0 \<le> int (length (queueR q)) \<and> int (length (queueR q)) \<le> nmaxR q \<and>
         nmaxR q = max 1 n \<and> (quiescentR ts \<longrightarrow> length (queueR q) = fullR q)"
proof -
  note v = inv_sysR_run [OF assms]
  from v have "int (length (queueR q)) \<le> nmaxR q"
    by (simp add: inv_sysR_def)
  moreover have "length (queueR q) = fullR q" if "quiescentR ts"
    using v quiescentR_totals [OF that] by (simp add: inv_sysR_def)
  ultimately show ?thesis
    using nmaxR_run [OF assms] by simp
qed

lemma holder_movesR:
  assumes "inv_sysR (q, ts)" and "mutexR q = 0"
  shows "\<exists>j<length ts. in_csR (pc (ts ! j)) = 1 \<and> (\<exists>s'. sys_step stepR j (q, ts) = Inr s')"
proof -
  from assms have "0 < total (\<lambda>t. in_csR (pc t)) ts" by (simp add: inv_sysR_def)
  from total_pos_nth [OF this] obtain j where j: "j < length ts" "0 < in_csR (pc (ts ! j))"
    by blast
  with in_csR_cases [of "pc (ts ! j)"] have c: "in_csR (pc (ts ! j)) = 1" by auto
  have "\<exists>s'. sys_step stepR j (q, ts) = Inr s'"
  proof (cases "sys_step stepR j (q, ts)")
    case (Inl e)
    with j(1) have "stepR q (ts ! j) = Inl e" by (simp add: sys_step_Inl)
    with stepR_in_cs [OF c, of q] error_cases [of e] have "e = Undefined" by auto
    with Inl inv_sysR_no_Undefined [OF assms(1), of j] show ?thesis by simp
  next
    case (Inr s')
    then show ?thesis by blast
  qed
  with j(1) c show ?thesis by blast
qed

lemma pushingR_step:
  assumes r: "run stepR sched (startR n progs) = Inr (q, ts)" and i: "i < length ts"
    and p: "pushingR (ts ! i)"
  shows "if pc (ts ! i) = IdleR \<and> mutexR q = 0
         then sys_step stepR i (q, ts) = Inl Blocks \<and>
              (\<exists>j<length ts. j \<noteq> i \<and> (\<exists>s'. sys_step stepR j (q, ts) = Inr s'))
         else \<exists>s'. sys_step stepR i (q, ts) = Inr s'"
proof (cases "pc (ts ! i) = IdleR \<and> mutexR q = 0")
  case True
  with p have b: "stepR q (ts ! i) = Inl Blocks"
    by (auto simp: stepR_Blocks pushingR_def split: list.splits call.splits)
  with i have sb: "sys_step stepR i (q, ts) = Inl Blocks" by (simp add: sys_step_Inl)
  from True holder_movesR [OF inv_sysR_run [OF r]] obtain j s' where j: "j < length ts"
    and js: "sys_step stepR j (q, ts) = Inr s'" by blast
  from js sb have "j \<noteq> i" by auto
  with True sb j js show ?thesis by auto
next
  case False
  have "\<exists>s'. sys_step stepR i (q, ts) = Inr s'"
  proof (cases "sys_step stepR i (q, ts)")
    case (Inl e)
    with i have e: "stepR q (ts ! i) = Inl e" by (simp add: sys_step_Inl)
    from p False have "stepR q (ts ! i) \<noteq> Inl Blocks" "stepR q (ts ! i) \<noteq> Inl Halted"
      by (auto simp: stepR_Blocks stepR_Halted pushingR_def split: list.splits call.splits pcR.splits)
    with e error_cases [of e] have "e = Undefined" by auto
    with Inl inv_sysR_no_Undefined [OF inv_sysR_run [OF r], of i] show ?thesis by simp
  next
    case (Inr s')
    then show ?thesis by blast
  qed
  then show ?thesis by (simp only: False if_False)
qed

section \<open>A call is a run of its statements\<close>

text \<open>
  The two embeddings agree: a call that returns is the run of its statements by a thread
  that is alone, so what holds after every schedule holds after every sequence of calls.
\<close>

lemma push_run:
  assumes "push msg q = Inr q'"
  shows "run step [0, 0, 0, 0, 0] (q, [\<lparr>todo = Push msg # cs, pc = Idle, got = g\<rparr>]) =
           Inr (q', [\<lparr>todo = cs, pc = Idle, got = g\<rparr>])"
  using assms
  by (simp add: push_eq sys_step_single step_def Lock_def unLock_def increment_def
      split: if_splits)

lemma pop_run:
  assumes "pop q = Inr (q', ret)"
  shows "run step [0, 0, 0, 0, 0, 0] (q, [\<lparr>todo = Pop # cs, pc = Idle, got = g\<rparr>]) =
           Inr (q', [\<lparr>todo = cs, pc = Idle, got = g @ [ret]\<rparr>])"
  using assms
  by (auto simp: pop_eq sys_step_single step_def Lock_def unLock_def increment_def
      split: if_splits list.splits)

lemma pushR_run:
  assumes "pushR msg q = Inr q'"
  shows "run stepR [0, 0, 0, 0, 0] (q, [\<lparr>todo = Push msg # cs, pc = IdleR, got = g\<rparr>]) =
           Inr (q', [\<lparr>todo = cs, pc = IdleR, got = g\<rparr>])"
  using assms
  by (auto simp: pushR_eq sys_step_single stepR_def Lock_def unLock_def increment_def
      split: if_splits list.splits)

lemma popR_run:
  assumes "popR q = Inr (q', ret)"
  shows "run stepR [0, 0, 0, 0, 0] (q, [\<lparr>todo = Pop # cs, pc = IdleR, got = g\<rparr>]) =
           Inr (q', [\<lparr>todo = cs, pc = IdleR, got = g @ [ret]\<rparr>])"
  using assms
  by (auto simp: popR_eq sys_step_single stepR_def Lock_def unLock_def increment_def
      split: if_splits list.splits)

lemma calls_run:
  "calls cs q = Inr (q', rets) \<Longrightarrow>
     \<exists>sched. run step sched (q, [\<lparr>todo = cs, pc = Idle, got = g\<rparr>]) =
       Inr (q', [\<lparr>todo = [], pc = Idle, got = g @ rets\<rparr>])"
proof (induction cs arbitrary: q g rets)
  case Nil
  then have "run step [] (q, [\<lparr>todo = [], pc = Idle, got = g\<rparr>]) =
       Inr (q', [\<lparr>todo = [], pc = Idle, got = g @ rets\<rparr>])" by simp
  then show ?case by blast
next
  case (Cons c cs)
  show ?case
  proof (cases c)
    case (Push msg)
    with Cons.prems obtain q1 where p: "push msg q = Inr q1" and r: "calls cs q1 = Inr (q', rets)"
      by (cases "push msg q") auto
    from Cons.IH [OF r, of g] obtain sched
      where "run step sched (q1, [\<lparr>todo = cs, pc = Idle, got = g\<rparr>]) =
       Inr (q', [\<lparr>todo = [], pc = Idle, got = g @ rets\<rparr>])" by blast
    with push_run [OF p, of cs g] Push
    have "run step ([0, 0, 0, 0, 0] @ sched) (q, [\<lparr>todo = c # cs, pc = Idle, got = g\<rparr>]) =
       Inr (q', [\<lparr>todo = [], pc = Idle, got = g @ rets\<rparr>])"
      by (simp only: run_append sum.case)
    then show ?thesis by blast
  next
    case Pop
    with Cons.prems obtain q1 r1 where p: "pop q = Inr (q1, r1)"
      by (cases "pop q") auto
    with Cons.prems Pop obtain rs where r: "calls cs q1 = Inr (q', rs)" and rets: "rets = r1 # rs"
      by (cases "calls cs q1") auto
    from Cons.IH [OF r, of "g @ [r1]"] obtain sched
      where "run step sched (q1, [\<lparr>todo = cs, pc = Idle, got = g @ [r1]\<rparr>]) =
       Inr (q', [\<lparr>todo = [], pc = Idle, got = (g @ [r1]) @ rs\<rparr>])" by blast
    then have "run step sched (q1, [\<lparr>todo = cs, pc = Idle, got = g @ [r1]\<rparr>]) =
       Inr (q', [\<lparr>todo = [], pc = Idle, got = g @ rets\<rparr>])"
      using rets by simp
    with pop_run [OF p, of cs g] Pop
    have "run step ([0, 0, 0, 0, 0, 0] @ sched) (q, [\<lparr>todo = c # cs, pc = Idle, got = g\<rparr>]) =
       Inr (q', [\<lparr>todo = [], pc = Idle, got = g @ rets\<rparr>])"
      by (simp only: run_append sum.case)
    then show ?thesis by blast
  qed
qed

lemma callsR_run:
  "callsR cs q = Inr (q', rets) \<Longrightarrow>
     \<exists>sched. run stepR sched (q, [\<lparr>todo = cs, pc = IdleR, got = g\<rparr>]) =
       Inr (q', [\<lparr>todo = [], pc = IdleR, got = g @ rets\<rparr>])"
proof (induction cs arbitrary: q g rets)
  case Nil
  then have "run stepR [] (q, [\<lparr>todo = [], pc = IdleR, got = g\<rparr>]) =
       Inr (q', [\<lparr>todo = [], pc = IdleR, got = g @ rets\<rparr>])" by simp
  then show ?case by blast
next
  case (Cons c cs)
  show ?case
  proof (cases c)
    case (Push msg)
    with Cons.prems obtain q1 where p: "pushR msg q = Inr q1" and r: "callsR cs q1 = Inr (q', rets)"
      by (cases "pushR msg q") auto
    from Cons.IH [OF r, of g] obtain sched
      where "run stepR sched (q1, [\<lparr>todo = cs, pc = IdleR, got = g\<rparr>]) =
       Inr (q', [\<lparr>todo = [], pc = IdleR, got = g @ rets\<rparr>])" by blast
    with pushR_run [OF p, of cs g] Push
    have "run stepR ([0, 0, 0, 0, 0] @ sched) (q, [\<lparr>todo = c # cs, pc = IdleR, got = g\<rparr>]) =
       Inr (q', [\<lparr>todo = [], pc = IdleR, got = g @ rets\<rparr>])"
      by (simp only: run_append sum.case)
    then show ?thesis by blast
  next
    case Pop
    with Cons.prems obtain q1 r1 where p: "popR q = Inr (q1, r1)"
      by (cases "popR q") auto
    with Cons.prems Pop obtain rs where r: "callsR cs q1 = Inr (q', rs)" and rets: "rets = r1 # rs"
      by (cases "callsR cs q1") auto
    from Cons.IH [OF r, of "g @ [r1]"] obtain sched
      where "run stepR sched (q1, [\<lparr>todo = cs, pc = IdleR, got = g @ [r1]\<rparr>]) =
       Inr (q', [\<lparr>todo = [], pc = IdleR, got = (g @ [r1]) @ rs\<rparr>])" by blast
    then have "run stepR sched (q1, [\<lparr>todo = cs, pc = IdleR, got = g @ [r1]\<rparr>]) =
       Inr (q', [\<lparr>todo = [], pc = IdleR, got = g @ rets\<rparr>])"
      using rets by simp
    with popR_run [OF p, of cs g] Pop
    have "run stepR ([0, 0, 0, 0, 0] @ sched) (q, [\<lparr>todo = c # cs, pc = IdleR, got = g\<rparr>]) =
       Inr (q', [\<lparr>todo = [], pc = IdleR, got = g @ rets\<rparr>])"
      by (simp only: run_append sum.case)
    then show ?thesis by blast
  qed
qed

lemma calls_inv_rest:
  assumes "calls cs (new_MsgQueue n) = Inr (q, rets)"
  shows "inv_rest q" and "nmax q = max 1 n"
proof -
  from calls_run [OF assms, of "[]"] obtain sched
    where r: "run step sched (start n [cs]) = Inr (q, [\<lparr>todo = [], pc = Idle, got = rets\<rparr>])"
    by (auto simp: start_def spawn_def)
  from inv_sys_quiescent [OF inv_sys_run [OF r]] show "inv_rest q"
    by (simp add: quiescent_def)
  from nmax_run [OF r] show "nmax q = max 1 n" .
qed

lemma inv_rest_new: "inv_rest (new_MsgQueue n)"
  by (simp add: inv_rest_def new_MsgQueue_fields)

lemma push_inv_rest:
  assumes "inv_rest q"
  shows "push msg q = (if empty q = 0 then Inl Blocks
           else Inr (q\<lparr>empty := empty q - 1, queue := queue q @ [msg], full := full q + 1\<rparr>))"
    and "push msg q = Inr q' \<Longrightarrow> inv_rest q'"
  using assms by (auto simp: inv_rest_def push_eq split: if_splits)

lemma pop_inv_rest:
  assumes "inv_rest q"
  shows "pop q = (case queue q of [] \<Rightarrow> Inl Blocks
           | ret # rest \<Rightarrow> Inr (q\<lparr>full := full q - 1, queue := rest, empty := empty q + 1\<rparr>, ret))"
    and "pop q = Inr (q', ret) \<Longrightarrow> inv_rest q'"
  using assms by (auto simp: inv_rest_def pop_eq split: if_splits list.splits)

lemma pushes:
  assumes "inv_rest q" and "length vs \<le> empty q"
  shows "\<exists>q'. calls (map Push vs) q = Inr (q', []) \<and> inv_rest q' \<and> nmax q' = nmax q \<and>
           empty q' = empty q - length vs \<and> queue q' = queue q @ vs"
  using assms
proof (induction vs arbitrary: q)
  case Nil
  then show ?case by simp
next
  case (Cons v vs)
  let ?q1 = "q\<lparr>empty := empty q - 1, queue := queue q @ [v], full := full q + 1\<rparr>"
  from Cons.prems have p: "push v q = Inr ?q1" by (simp add: push_inv_rest(1))
  from push_inv_rest(2) [OF Cons.prems(1) p] have i: "inv_rest ?q1" .
  from Cons.prems(2) have "length vs \<le> empty ?q1" by simp
  from Cons.IH [OF i this] obtain q' where "calls (map Push vs) ?q1 = Inr (q', [])"
    "inv_rest q'" "nmax q' = nmax ?q1" "empty q' = empty ?q1 - length vs"
    "queue q' = queue ?q1 @ vs" by blast
  with p show ?case by simp
qed

lemma calls_no_Undefined: "inv_rest q \<Longrightarrow> calls cs q \<noteq> Inl Undefined"
proof (induction cs arbitrary: q)
  case Nil
  then show ?case by simp
next
  case (Cons c cs)
  show ?case
  proof (cases c)
    case (Push msg)
    show ?thesis
    proof (cases "push msg q")
      case (Inl e)
      with Cons.prems have "e = Blocks" by (auto simp: push_inv_rest(1) split: if_splits)
      with Inl Push show ?thesis by simp
    next
      case (Inr q1)
      from push_inv_rest(2) [OF Cons.prems Inr] have "inv_rest q1" .
      from Cons.IH [OF this] Inr Push show ?thesis by simp
    qed
  next
    case Pop
    show ?thesis
    proof (cases "pop q")
      case (Inl e)
      with Cons.prems have "e = Blocks" by (auto simp: pop_inv_rest(1) split: list.splits)
      with Inl Pop show ?thesis by simp
    next
      case (Inr x)
      obtain q1 r1 where x: "x = (q1, r1)" by (cases x)
      from pop_inv_rest(2) [OF Cons.prems] Inr x have "inv_rest q1" by simp
      from Cons.IH [OF this] Inr x Pop show ?thesis by (auto split: sum.splits)
    qed
  qed
qed

lemma calls_fifo:
  "calls cs q = Inr (q', rets) \<Longrightarrow> rets @ queue q' = queue q @ pushed cs \<and> length rets = pops cs"
proof (induction cs arbitrary: q rets)
  case Nil
  then show ?case by simp
next
  case (Cons c cs)
  show ?case
  proof (cases c)
    case (Push msg)
    with Cons.prems obtain q1 where p: "push msg q = Inr q1" and r: "calls cs q1 = Inr (q', rets)"
      by (cases "push msg q") auto
    from p have "queue q1 = queue q @ [msg]"
      by (auto simp: push_eq split: if_splits)
    with Cons.IH [OF r] Push show ?thesis by simp
  next
    case Pop
    with Cons.prems obtain q1 r1 where p: "pop q = Inr (q1, r1)"
      by (cases "pop q") auto
    with Cons.prems Pop obtain rs where r: "calls cs q1 = Inr (q', rs)" and rets: "rets = r1 # rs"
      by (cases "calls cs q1") auto
    from p have "queue q = r1 # queue q1"
      by (auto simp: pop_eq split: if_splits list.splits)
    with Cons.IH [OF r] Pop rets show ?thesis by simp
  qed
qed

section \<open>MsgQueue: bounds and permits\<close>

text \<open>
  Claim C4. Invariant of MsgQueue. In every state that any interleaving of the
  statements of any threads reaches from a freshly constructed queue, the size of the
  storage is between 0 and \<open>nmax\<close>, and \<open>nmax\<close> is the capacity the constructor set; when
  no call is in progress, \<open>full + empty = nmax\<close> and the size of the storage is the count
  of \<open>full\<close>. The same holds after every sequence of calls made one after the other.
\<close>

theorem blocking_queue_invariant:
  "(run step sched (start n progs) = Inr (q, ts) \<longrightarrow>
      0 \<le> int (length (queue q)) \<and> int (length (queue q)) \<le> nmax q \<and> nmax q = max 1 n \<and>
      (quiescent ts \<longrightarrow>
         int (full q) + int (empty q) = nmax q \<and> length (queue q) = full q)) \<and>
   (calls cs (new_MsgQueue n) = Inr (q1, rets) \<longrightarrow>
      0 \<le> int (length (queue q1)) \<and> int (length (queue q1)) \<le> nmax q1 \<and> nmax q1 = max 1 n \<and>
      int (full q1) + int (empty q1) = nmax q1 \<and> length (queue q1) = full q1)"
proof (rule conjI; rule impI)
  assume "run step sched (start n progs) = Inr (q, ts)"
  from bounds_run [OF this]
  show "0 \<le> int (length (queue q)) \<and> int (length (queue q)) \<le> nmax q \<and> nmax q = max 1 n \<and>
      (quiescent ts \<longrightarrow>
         int (full q) + int (empty q) = nmax q \<and> length (queue q) = full q)" .
next
  assume "calls cs (new_MsgQueue n) = Inr (q1, rets)"
  from calls_inv_rest [OF this]
  show "0 \<le> int (length (queue q1)) \<and> int (length (queue q1)) \<le> nmax q1 \<and> nmax q1 = max 1 n \<and>
      int (full q1) + int (empty q1) = nmax q1 \<and> length (queue q1) = full q1"
    by (auto simp: inv_rest_def)
qed

theorem blocking_queue_invariant_witness:
  "run step [0, 0, 0, 0, 0, 1, 0, 1, 1, 1, 1, 0, 1, 0, 0, 0, 1, 1, 1, 1, 1, 1]
     (start 2 [map Push [5, 6 :: int], replicate 2 Pop]) =
   Inr (\<lparr>nmax = 2, queue = [], mutex = 1, full = 0, empty = 2\<rparr>,
        [\<lparr>todo = [], pc = Idle, got = []\<rparr>, \<lparr>todo = [], pc = Idle, got = [5, 6]\<rparr>]) \<and>
   quiescent [\<lparr>todo = [], pc = Idle :: int pc, got = [] :: int list\<rparr>,
              \<lparr>todo = [], pc = Idle, got = [5, 6]\<rparr>] \<and>
   int (full \<lparr>nmax = 2, queue = [] :: int list, mutex = 1, full = 0, empty = 2\<rparr>) +
   int (empty \<lparr>nmax = 2, queue = [] :: int list, mutex = 1, full = 0, empty = 2\<rparr>) =
     nmax \<lparr>nmax = 2, queue = [] :: int list, mutex = 1, full = 0, empty = 2\<rparr> \<and>
   calls [Push 1, Push 2, Pop] (new_MsgQueue 2) =
     Inr (\<lparr>nmax = 2, queue = [2 :: int], mutex = 1, full = 1, empty = 1\<rparr>, [1]) \<and>
   length (queue \<lparr>nmax = 2, queue = [2 :: int], mutex = 1, full = 1, empty = 1\<rparr>) =
     full \<lparr>nmax = 2, queue = [2 :: int], mutex = 1, full = 1, empty = 1\<rparr>"
proof -
  let ?q = "\<lparr>nmax = 2, queue = [] :: int list, mutex = 1, full = 0, empty = 2\<rparr>"
  let ?ts = "[\<lparr>todo = [], pc = Idle :: int pc, got = [] :: int list\<rparr>,
              \<lparr>todo = [], pc = Idle, got = [5, 6]\<rparr>]"
  let ?sched = "[0, 0, 0, 0, 0, 1, 0, 1, 1, 1, 1, 0, 1, 0, 0, 0, 1, 1, 1, 1, 1, 1 :: nat]"
  let ?q1 = "\<lparr>nmax = 2, queue = [2 :: int], mutex = 1, full = 1, empty = 1\<rparr>"
  have r: "run step ?sched (start 2 [map Push [5, 6 :: int], replicate 2 Pop]) = Inr (?q, ?ts)"
    by code_simp
  have qu: "quiescent ?ts" by (simp add: quiescent_def)
  have c: "calls [Push 1, Push 2, Pop] (new_MsgQueue 2) = Inr (?q1, [1])"
    by code_simp
  from blocking_queue_invariant [where sched = ?sched and n = 2
      and progs = "[map Push [5, 6], replicate 2 Pop]" and q = ?q and ts = ?ts, THEN conjunct1] r qu
  have A: "int (full ?q) + int (empty ?q) = nmax ?q" by blast
  from blocking_queue_invariant [where cs = "[Push 1, Push 2, Pop]" and n = 2 and ?q1.0 = ?q1
      and rets = "[1]", THEN conjunct2] c
  have B: "length (queue ?q1) = full ?q1" by blast
  from r qu A c B show ?thesis by (intro conjI)
qed

text \<open>
  Claim C5. Blocking conditions of MsgQueue. The first statement of \<open>push\<close> blocks
  exactly when \<open>empty\<close> has no permit, and otherwise is executed; the first statement
  of \<open>pop\<close> blocks exactly when \<open>full\<close> has no permit. In every reachable state of the
  interleaved system, a thread that cannot move waits for an \<open>empty\<close> permit at the
  start of \<open>push\<close>, or for a \<open>full\<close> permit at the start of \<open>pop\<close>, or for the mutex
  while some other thread can move. Between calls, \<open>push\<close> blocks exactly when \<open>empty\<close>
  is zero, which is when the queue holds \<open>nmax\<close> messages, and otherwise returns; \<open>pop\<close>
  blocks exactly when \<open>full\<close> is zero, which is when the queue is empty, and otherwise
  returns. On a queue of capacity \<open>k\<close>, after \<open>k\<close> pushes and no pop, a further push
  blocks; after one pop, which returns the first value pushed, it returns.
\<close>

theorem blocking_conditions:
  "(pc t = Idle \<and> todo t = Push msg # cs \<longrightarrow>
      (step q t = Inl Blocks \<longleftrightarrow> empty q = 0) \<and>
      (empty q \<noteq> 0 \<longrightarrow> (\<exists>q' t'. step q t = Inr (q', t')))) \<and>
   (pc t = Idle \<and> todo t = Pop # cs \<longrightarrow>
      (step q t = Inl Blocks \<longleftrightarrow> full q = 0) \<and>
      (full q \<noteq> 0 \<longrightarrow> (\<exists>q' t'. step q t = Inr (q', t')))) \<and>
   (run step sched (start n progs) = Inr (q0, ts) \<and> i < length ts \<and>
    sys_step step i (q0, ts) = Inl Blocks \<longrightarrow>
      (pc (ts ! i) = Idle \<and>
         ((\<exists>msg cs. todo (ts ! i) = Push msg # cs) \<and> empty q0 = 0 \<or>
          (\<exists>cs. todo (ts ! i) = Pop # cs) \<and> full q0 = 0)) \<or>
      (mutex q0 = 0 \<and> (\<exists>j<length ts. j \<noteq> i \<and> (\<exists>s'. sys_step step j (q0, ts) = Inr s')))) \<and>
   (calls cs' (new_MsgQueue n) = Inr (q1, rets) \<longrightarrow>
      (push msg q1 = Inl Blocks \<longleftrightarrow> empty q1 = 0) \<and>
      (empty q1 \<noteq> 0 \<longrightarrow> (\<exists>q2. push msg q1 = Inr q2)) \<and>
      (pop q1 = Inl Blocks \<longleftrightarrow> full q1 = 0) \<and>
      (full q1 \<noteq> 0 \<longrightarrow> (\<exists>q2 ret. pop q1 = Inr (q2, ret))) \<and>
      (full q1 = 0 \<longleftrightarrow> queue q1 = []) \<and>
      (empty q1 = 0 \<longleftrightarrow> int (length (queue q1)) = nmax q1)) \<and>
   (int (length vs) = max 1 n \<longrightarrow>
      (\<exists>q3. calls (map Push vs) (new_MsgQueue n) = Inr (q3, []) \<and>
         push msg q3 = Inl Blocks \<and>
         (\<exists>q4 q5. pop q3 = Inr (q4, hd vs) \<and> push msg q4 = Inr q5)))"
proof (intro conjI)
  show "pc t = Idle \<and> todo t = Push msg # cs \<longrightarrow>
      (step q t = Inl Blocks \<longleftrightarrow> empty q = 0) \<and>
      (empty q \<noteq> 0 \<longrightarrow> (\<exists>q' t'. step q t = Inr (q', t')))"
    by (simp add: step_def decrement_def)
  show "pc t = Idle \<and> todo t = Pop # cs \<longrightarrow>
      (step q t = Inl Blocks \<longleftrightarrow> full q = 0) \<and>
      (full q \<noteq> 0 \<longrightarrow> (\<exists>q' t'. step q t = Inr (q', t')))"
    by (simp add: step_def decrement_def)
  show "run step sched (start n progs) = Inr (q0, ts) \<and> i < length ts \<and>
    sys_step step i (q0, ts) = Inl Blocks \<longrightarrow>
      (pc (ts ! i) = Idle \<and>
         ((\<exists>msg cs. todo (ts ! i) = Push msg # cs) \<and> empty q0 = 0 \<or>
          (\<exists>cs. todo (ts ! i) = Pop # cs) \<and> full q0 = 0)) \<or>
      (mutex q0 = 0 \<and> (\<exists>j<length ts. j \<noteq> i \<and> (\<exists>s'. sys_step step j (q0, ts) = Inr s')))"
    using blocked_reason [of sched n progs q0 ts i] by blast
  show "calls cs' (new_MsgQueue n) = Inr (q1, rets) \<longrightarrow>
      (push msg q1 = Inl Blocks \<longleftrightarrow> empty q1 = 0) \<and>
      (empty q1 \<noteq> 0 \<longrightarrow> (\<exists>q2. push msg q1 = Inr q2)) \<and>
      (pop q1 = Inl Blocks \<longleftrightarrow> full q1 = 0) \<and>
      (full q1 \<noteq> 0 \<longrightarrow> (\<exists>q2 ret. pop q1 = Inr (q2, ret))) \<and>
      (full q1 = 0 \<longleftrightarrow> queue q1 = []) \<and>
      (empty q1 = 0 \<longleftrightarrow> int (length (queue q1)) = nmax q1)"
  proof
    assume "calls cs' (new_MsgQueue n) = Inr (q1, rets)"
    from calls_inv_rest(1) [OF this] have i: "inv_rest q1" .
    from i have "push msg q1 = Inl Blocks \<longleftrightarrow> empty q1 = 0"
      and "empty q1 \<noteq> 0 \<longrightarrow> (\<exists>q2. push msg q1 = Inr q2)"
      by (simp_all add: push_inv_rest(1))
    moreover from i have "pop q1 = Inl Blocks \<longleftrightarrow> full q1 = 0"
      and "full q1 \<noteq> 0 \<longrightarrow> (\<exists>q2 ret. pop q1 = Inr (q2, ret))"
      by (auto simp: pop_inv_rest(1) inv_rest_def split: list.splits)
    moreover from i have "full q1 = 0 \<longleftrightarrow> queue q1 = []"
      and "empty q1 = 0 \<longleftrightarrow> int (length (queue q1)) = nmax q1"
      by (auto simp: inv_rest_def)
    ultimately show "(push msg q1 = Inl Blocks \<longleftrightarrow> empty q1 = 0) \<and>
      (empty q1 \<noteq> 0 \<longrightarrow> (\<exists>q2. push msg q1 = Inr q2)) \<and>
      (pop q1 = Inl Blocks \<longleftrightarrow> full q1 = 0) \<and>
      (full q1 \<noteq> 0 \<longrightarrow> (\<exists>q2 ret. pop q1 = Inr (q2, ret))) \<and>
      (full q1 = 0 \<longleftrightarrow> queue q1 = []) \<and>
      (empty q1 = 0 \<longleftrightarrow> int (length (queue q1)) = nmax q1)"
      by blast
  qed
  show "int (length vs) = max 1 n \<longrightarrow>
      (\<exists>q3. calls (map Push vs) (new_MsgQueue n) = Inr (q3, []) \<and>
         push msg q3 = Inl Blocks \<and>
         (\<exists>q4 q5. pop q3 = Inr (q4, hd vs) \<and> push msg q4 = Inr q5))"
  proof
    assume l: "int (length vs) = max 1 n"
    let ?q0 = "new_MsgQueue n :: 'a MsgQueue"
    from l have le: "length vs \<le> empty ?q0" by (simp add: new_MsgQueue_fields)
    from pushes [OF inv_rest_new le] obtain q3 where c: "calls (map Push vs) ?q0 = Inr (q3, [])"
      and i: "inv_rest q3" and e: "empty q3 = empty ?q0 - length vs" and qu: "queue q3 = vs"
      by (auto simp: new_MsgQueue_fields)
    from e l have e0: "empty q3 = 0" by (simp add: new_MsgQueue_fields)
    with i have b: "push msg q3 = Inl Blocks" by (simp add: push_inv_rest(1))
    from l obtain v vs' where vs: "vs = v # vs'" by (cases vs) auto
    let ?q4 = "q3\<lparr>full := full q3 - 1, queue := vs', empty := empty q3 + 1\<rparr>"
    from i qu vs have p: "pop q3 = Inr (?q4, hd vs)" by (simp add: pop_inv_rest(1))
    from pop_inv_rest(2) [OF i p] have "inv_rest ?q4" .
    then have "\<exists>q5. push msg ?q4 = Inr q5" by (simp add: push_inv_rest(1))
    with c b p show "\<exists>q3. calls (map Push vs) ?q0 = Inr (q3, []) \<and>
         push msg q3 = Inl Blocks \<and>
         (\<exists>q4 q5. pop q3 = Inr (q4, hd vs) \<and> push msg q4 = Inr q5)" by blast
  qed
qed

theorem blocking_conditions_witness:
  "step \<lparr>nmax = 1, queue = [9 :: int], mutex = 1, full = 1, empty = 0\<rparr>
        \<lparr>todo = [Push 3], pc = Idle, got = []\<rparr> = Inl Blocks \<and>
   step \<lparr>nmax = 1, queue = [] :: int list, mutex = 1, full = 0, empty = 1\<rparr>
        \<lparr>todo = [Pop], pc = Idle, got = []\<rparr> = Inl Blocks \<and>
   run step [0, 0, 1] (start 2 [[Push 1], [Push (2 :: int)]]) =
     Inr (\<lparr>nmax = 2, queue = [], mutex = 0, full = 0, empty = 0\<rparr>,
          [\<lparr>todo = [], pc = Push_queue 1, got = []\<rparr>,
           \<lparr>todo = [], pc = Push_lock 2, got = []\<rparr>]) \<and>
   sys_step step 1
     (\<lparr>nmax = 2, queue = [] :: int list, mutex = 0, full = 0, empty = 0\<rparr>,
      [\<lparr>todo = [], pc = Push_queue 1, got = []\<rparr>,
       \<lparr>todo = [], pc = Push_lock 2, got = []\<rparr>]) = Inl Blocks \<and>
   (\<exists>s'. sys_step step 0
     (\<lparr>nmax = 2, queue = [] :: int list, mutex = 0, full = 0, empty = 0\<rparr>,
      [\<lparr>todo = [], pc = Push_queue 1, got = []\<rparr>,
       \<lparr>todo = [], pc = Push_lock 2, got = []\<rparr>]) = Inr s') \<and>
   calls [Push 1, Push 2] (new_MsgQueue 2) =
     Inr (\<lparr>nmax = 2, queue = [1, 2 :: int], mutex = 1, full = 2, empty = 0\<rparr>, []) \<and>
   push 3 \<lparr>nmax = 2, queue = [1, 2 :: int], mutex = 1, full = 2, empty = 0\<rparr> = Inl Blocks \<and>
   (\<exists>q4 q5. pop \<lparr>nmax = 2, queue = [1, 2 :: int], mutex = 1, full = 2, empty = 0\<rparr> = Inr (q4, 1) \<and>
      push 3 q4 = Inr q5)"
proof -
  let ?qa = "\<lparr>nmax = 1, queue = [9 :: int], mutex = 1, full = 1, empty = 0\<rparr>"
  let ?ta = "\<lparr>todo = [Push 3], pc = Idle :: int pc, got = [] :: int list\<rparr>"
  let ?qb = "\<lparr>nmax = 1, queue = [] :: int list, mutex = 1, full = 0, empty = 1\<rparr>"
  let ?tb = "\<lparr>todo = [Pop], pc = Idle :: int pc, got = [] :: int list\<rparr>"
  let ?qc = "\<lparr>nmax = 2, queue = [] :: int list, mutex = 0, full = 0, empty = 0\<rparr>"
  let ?tc = "[\<lparr>todo = [], pc = Push_queue 1, got = []\<rparr>,
       \<lparr>todo = [], pc = Push_lock (2 :: int), got = [] :: int list\<rparr>]"
  let ?qd = "\<lparr>nmax = 2, queue = [1, 2 :: int], mutex = 1, full = 2, empty = 0\<rparr>"
  have a: "pc ?ta = Idle \<and> todo ?ta = Push 3 # []" and a': "empty ?qa = 0" by simp_all
  from blocking_conditions [where t = ?ta and msg = 3 and cs = "[]" and q = ?qa, THEN conjunct1] a a'
  have A: "step ?qa ?ta = Inl Blocks" by blast
  have b: "pc ?tb = Idle \<and> todo ?tb = Pop # []" and b': "full ?qb = 0" by simp_all
  from blocking_conditions [where t = ?tb and cs = "[]" and q = ?qb, THEN conjunct2, THEN conjunct1] b b'
  have B: "step ?qb ?tb = Inl Blocks" by blast
  have r: "run step [0, 0, 1] (start 2 [[Push 1], [Push (2 :: int)]]) = Inr (?qc, ?tc)"
    by code_simp
  have sb: "sys_step step 1 (?qc, ?tc) = Inl Blocks"
    by code_simp
  have l: "1 < length ?tc" and ni: "pc (?tc ! 1) \<noteq> Idle" by simp_all
  from blocking_conditions [where sched = "[0, 0, 1]" and n = 2 and progs = "[[Push 1], [Push 2]]"
      and ?q0.0 = ?qc and ts = ?tc and i = 1, THEN conjunct2, THEN conjunct2, THEN conjunct1]
    r l sb ni
  have "\<exists>j<length ?tc. j \<noteq> 1 \<and> (\<exists>s'. sys_step step j (?qc, ?tc) = Inr s')" by blast
  then obtain j where j: "j < length ?tc" "j \<noteq> 1" "\<exists>s'. sys_step step j (?qc, ?tc) = Inr s'"
    by blast
  from j(1,2) have "j = 0" by simp
  with j(3) have C: "\<exists>s'. sys_step step 0 (?qc, ?tc) = Inr s'" by simp
  have c: "calls [Push 1, Push 2] (new_MsgQueue 2) = Inr (?qd, [])"
    by code_simp
  have e0: "empty ?qd = 0" by simp
  from blocking_conditions [where cs' = "[Push 1, Push 2]" and n = 2 and ?q1.0 = ?qd
      and rets = "[]" and msg = 3, THEN conjunct2, THEN conjunct2, THEN conjunct2, THEN conjunct1]
    c e0
  have D: "push 3 ?qd = Inl Blocks" by blast
  have v: "int (length [1, 2 :: int]) = max 1 2" by simp
  from blocking_conditions [where vs = "[1, 2 :: int]" and n = 2 and msg = 3,
      THEN conjunct2, THEN conjunct2, THEN conjunct2, THEN conjunct2] v
  obtain q3 q4 q5 where q3: "calls (map Push [1, 2 :: int]) (new_MsgQueue 2) = Inr (q3, [])"
    "pop q3 = Inr (q4, hd [1, 2])" "push 3 q4 = Inr q5" by blast
  from q3(1) c have "q3 = ?qd" by simp
  with q3(2,3) have E: "\<exists>q4 q5. pop ?qd = Inr (q4, 1) \<and> push 3 q4 = Inr q5" by auto
  from A B r sb C c D E show ?thesis by (intro conjI)
qed

section \<open>MsgQueue: what is pushed is what is popped\<close>

lemma step_carried:
  assumes "step q t = Inr (q', t')" and "front_ok (queue q) (pc t)"
  shows "mset (queue q') + carried t' = mset (queue q) + carried t"
  using assms
  by (auto simp: step_def carried_def Lock_def unLock_def and_then_Inr split: step_splits)

lemma step_npops:
  assumes "step q t = Inr (q', t')"
  shows "npops t' = npops t"
  using assms
  by (auto simp: step_def npops_def Lock_def unLock_def and_then_Inr split: step_splits)

lemma conserved_step:
  assumes "conserved progs s" and "sys_step step i s = Inr s'"
  shows "conserved progs s'"
proof -
  obtain q ts where s: "s = (q, ts)" by (cases s)
  from assms(2) s obtain q' t' where i: "i < length ts"
    and st: "step q (ts ! i) = Inr (q', t')" and s': "s' = (q', ts[i := t'])"
    by (auto simp: sys_step_Inr)
  from assms(1) s have v: "inv_sys (q, ts)"
    and c: "mset (queue q) + total carried ts = total (\<lambda>cs. mset (pushed cs)) progs"
    and p: "map npops ts = map pops progs"
    by (simp_all add: conserved_def)
  from v i have "front_ok (queue q) (pc (ts ! i))"
    by (simp add: inv_sys_def list_all_length)
  from step_carried [OF st this]
  have "mset (queue q') + carried t' = mset (queue q) + carried (ts ! i)" .
  moreover have "total carried (ts[i := t']) + carried (ts ! i) = total carried ts + carried t'"
    by (rule total_update [OF i])
  ultimately have "mset (queue q') + total carried (ts[i := t']) + carried (ts ! i) =
      mset (queue q) + total carried ts + carried (ts ! i)"
    by (simp add: ac_simps)
  then have c': "mset (queue q') + total carried (ts[i := t']) =
      total (\<lambda>cs. mset (pushed cs)) progs"
    using c by simp
  have "map npops (ts[i := t']) = (map npops ts)[i := npops t']"
    by (simp add: map_update)
  also have "\<dots> = map npops ts"
    using step_npops [OF st] i by (simp add: list_update_same_conv)
  finally have p': "map npops (ts[i := t']) = map pops progs" using p by simp
  from inv_sys_step [OF _ assms(2)] v s s' have "inv_sys (q', ts[i := t'])" by simp
  with c' p' s' show ?thesis by (simp add: conserved_def)
qed

lemma conserved_start: "conserved progs (start n progs)"
proof -
  have "carried (spawn cs) = mset (pushed cs)" for cs :: "'a call list"
    by (simp add: carried_def spawn_def)
  then have "total carried (map spawn progs) = total (\<lambda>cs. mset (pushed cs)) progs"
    by (simp add: total_map)
  moreover have "npops (spawn cs) = pops cs" for cs :: "'a call list"
    by (simp add: npops_def spawn_def)
  then have "map npops (map spawn progs) = map pops progs"
    by simp
  ultimately show ?thesis
    using inv_sys_start [of n progs]
    by (simp add: conserved_def start_def new_MsgQueue_fields)
qed

lemma conserved_run: "run step sched (start n progs) = Inr s \<Longrightarrow> conserved progs s"
  using run_invariant [of "conserved progs" step, OF conserved_step conserved_start] .

lemma finished_carried: "list_all finished ts \<Longrightarrow> total carried ts = total (\<lambda>t. mset (got t)) ts"
  by (induction ts) (simp_all add: finished_def carried_def)

lemma finished_npops: "list_all finished ts \<Longrightarrow> map npops ts = map (\<lambda>t. length (got t)) ts"
  by (induction ts) (simp_all add: finished_def npops_def)

text \<open>
  All calls made: what was popped is what was pushed, if there were as many pops as
  pushes.
\<close>

lemma conservation:
  assumes r: "run step sched (start n progs) = Inr (q, ts)"
    and f: "list_all finished ts"
    and b: "total pops progs = total (\<lambda>cs. length (pushed cs)) progs"
  shows "queue q = []"
    and "total (\<lambda>t. mset (got t)) ts = total (\<lambda>cs. mset (pushed cs)) progs"
    and "map (\<lambda>t. length (got t)) ts = map pops progs"
proof -
  from conserved_run [OF r]
  have c: "mset (queue q) + total carried ts = total (\<lambda>cs. mset (pushed cs)) progs"
    and p: "map npops ts = map pops progs"
    by (simp_all add: conserved_def)
  from p finished_npops [OF f] show l: "map (\<lambda>t. length (got t)) ts = map pops progs"
    by simp
  from c finished_carried [OF f]
  have m: "mset (queue q) + total (\<lambda>t. mset (got t)) ts = total (\<lambda>cs. mset (pushed cs)) progs"
    by simp
  have "size (total (\<lambda>t. mset (got t)) ts) = total (\<lambda>t. length (got t)) ts"
    by (simp add: size_total)
  also have "\<dots> = sum_list (map (\<lambda>t. length (got t)) ts)"
    by (simp add: total_sum_list)
  also have "\<dots> = total pops progs"
    using l by (simp add: total_sum_list)
  also have "\<dots> = size (total (\<lambda>cs. mset (pushed cs)) progs)"
    using b by (simp add: size_total)
  finally have "size (mset (queue q)) = 0"
    using arg_cong [OF m, of size] by simp
  then show e: "queue q = []" by simp
  with m show "total (\<lambda>t. mset (got t)) ts = total (\<lambda>cs. mset (pushed cs)) progs"
    by simp
qed

lemma total_no_got: "list_all (\<lambda>t. got t = []) ts \<Longrightarrow> total (\<lambda>t. mset (got t)) ts = {#}"
  by (induction ts) simp_all

lemma no_loss:
  assumes r: "run step sched (start k (producers_consumer vs)) = Inr (q, ts)"
    and f: "list_all finished ts"
  shows "mset (got (last ts)) = mset vs \<and> (distinct vs \<longrightarrow> distinct (got (last ts))) \<and>
         list_all (\<lambda>t. got t = []) (butlast ts) \<and> queue q = []"
proof -
  let ?progs = "producers_consumer vs"
  have p: "map pops ?progs = replicate (length vs) 0 @ [length vs]"
    unfolding producers_consumer_def map_append producers_pops by simp
  have b: "total pops ?progs = total (\<lambda>cs. length (pushed cs)) ?progs"
    by (simp add: total_pops p total_replicate_0)
      (simp add: producers_consumer_def producers_pushed_length)
  have m: "total (\<lambda>cs. mset (pushed cs)) ?progs = mset vs"
    by (simp add: producers_consumer_def producers_pushed)
  note c = conservation [OF r f b]
  from c(3) p have l: "map (\<lambda>t. length (got t)) ts = replicate (length vs) 0 @ [length vs]"
    by simp
  then have "length ts = Suc (length vs)"
    using length_map [of "\<lambda>t. length (got t)" ts] by simp
  then have ne: "ts \<noteq> []" by auto
  then have ts: "ts = butlast ts @ [last ts]" by simp
  from l have "butlast (map (\<lambda>t. length (got t)) ts) = replicate (length vs) 0"
    by simp
  then have "map (\<lambda>t. length (got t)) (butlast ts) = replicate (length vs) 0"
    by (simp add: map_butlast)
  then have "\<forall>t\<in>set (butlast ts). length (got t) = 0"
    by (metis (no_types, lifting) imageI in_set_replicate set_map)
  then have g: "list_all (\<lambda>t. got t = []) (butlast ts)"
    by (simp add: list_all_iff)
  have "total (\<lambda>t. mset (got t)) ts =
      total (\<lambda>t. mset (got t)) (butlast ts) + mset (got (last ts))"
    by (subst ts) simp
  with total_no_got [OF g] c(2) m have e: "mset (got (last ts)) = mset vs" by simp
  from e have "distinct vs \<longrightarrow> distinct (got (last ts))"
    using mset_eq_imp_distinct_iff by blast
  with e g c(1) show ?thesis by simp
qed

subsection \<open>Producers and consumers always finish\<close>

lemma step_work: "step q t = Inr (q', t') \<Longrightarrow> Suc (work t') = work t"
  by (auto simp: step_def work_def Lock_def unLock_def and_then_Inr split: step_splits)

lemma step_pure: "step q t = Inr (q', t') \<Longrightarrow> pure (todo t) \<Longrightarrow> pure (todo t')"
  by (auto simp: step_def Lock_def unLock_def and_then_Inr split: step_splits dest: pure_Cons)

lemma sys_step_work:
  assumes "sys_step step i (q, ts) = Inr (q', ts')"
  shows "total work ts' < total work ts"
proof -
  from assms obtain t' where i: "i < length ts" and st: "step q (ts ! i) = Inr (q', t')"
    and ts': "ts' = ts[i := t']"
    by (auto simp: sys_step_Inr)
  from total_update [OF i, of work t'] step_work [OF st] ts' show ?thesis by simp
qed

lemma draining_step:
  assumes "draining progs s" and "sys_step step i s = Inr s'"
  shows "draining progs s'"
proof -
  obtain q ts where s: "s = (q, ts)" by (cases s)
  from assms(2) s obtain q' t' where i: "i < length ts"
    and st: "step q (ts ! i) = Inr (q', t')" and s': "s' = (q', ts[i := t'])"
    by (auto simp: sys_step_Inr)
  from assms(1) s have p: "list_all (\<lambda>t. pure (todo t)) ts" by (simp add: draining_def)
  with i have "pure (todo (ts ! i))" by (simp add: list_all_length)
  from step_pure [OF st this] have "pure (todo t')" .
  with p have "list_all (\<lambda>t. pure (todo t)) (ts[i := t'])"
    by (rule list_all_update)
  with assms conserved_step [of progs s i s'] s' show ?thesis
    by (simp add: draining_def)
qed

lemma quiescent_counts:
  assumes c: "conserved progs (q, ts)" and qu: "quiescent ts"
    and b: "total pops progs = total (\<lambda>cs. length (pushed cs)) progs"
  shows "length (queue q) + total (\<lambda>t. length (pushed (todo t))) ts = total (\<lambda>t. pops (todo t)) ts"
proof -
  from c have m: "mset (queue q) + total carried ts = total (\<lambda>cs. mset (pushed cs)) progs"
    and p: "map npops ts = map pops progs"
    by (simp_all add: conserved_def)
  from qu have idle: "\<And>t. t \<in> set ts \<Longrightarrow> pc t = Idle"
    by (simp add: quiescent_def list_all_iff)
  have "size (total carried ts) = total (\<lambda>t. size (carried t)) ts"
    by (rule size_total)
  also have "\<dots> = total (\<lambda>t. length (got t) + length (pushed (todo t))) ts"
    by (rule total_cong) (simp add: carried_def idle)
  also have "\<dots> = total (\<lambda>t. length (got t)) ts + total (\<lambda>t. length (pushed (todo t))) ts"
    by (rule total_add)
  finally have 1: "length (queue q) + total (\<lambda>t. length (got t)) ts +
      total (\<lambda>t. length (pushed (todo t))) ts = total (\<lambda>cs. length (pushed cs)) progs"
    using arg_cong [OF m, of size] by (simp add: size_total)
  have "total npops ts = total (\<lambda>t. length (got t) + pops (todo t)) ts"
    by (rule total_cong) (simp add: npops_def idle)
  also have "\<dots> = total (\<lambda>t. length (got t)) ts + total (\<lambda>t. pops (todo t)) ts"
    by (rule total_add)
  finally have 2: "total (\<lambda>t. length (got t)) ts + total (\<lambda>t. pops (todo t)) ts = total pops progs"
    using arg_cong [OF p, of sum_list] by (simp add: total_sum_list)
  from 1 2 b show ?thesis by simp
qed

lemma progress:
  assumes d: "draining progs (q, ts)" and u: "\<not> list_all finished ts"
  shows "\<exists>i s'. sys_step step i (q, ts) = Inr s'"
proof (rule ccontr)
  assume "\<not> (\<exists>i s'. sys_step step i (q, ts) = Inr s')"
  then have stuck: "\<And>i. \<exists>e. sys_step step i (q, ts) = Inl e"
    by (metis sum.exhaust)
  from d have c: "conserved progs (q, ts)" and pu: "list_all (\<lambda>t. pure (todo t)) ts"
    and b: "total pops progs = total (\<lambda>cs. length (pushed cs)) progs"
    by (simp_all add: draining_def)
  from c have v: "inv_sys (q, ts)" by (simp add: conserved_def)
  have m: "mutex q \<noteq> 0"
  proof
    assume "mutex q = 0"
    from holder_moves [OF v this] stuck show False by (metis sum.distinct(1))
  qed
  have st: "step q (ts ! i) = Inl Blocks \<or> step q (ts ! i) = Inl Halted" if i: "i < length ts" for i
  proof -
    from stuck [of i] obtain e where e: "sys_step step i (q, ts) = Inl e" by blast
    with inv_sys_no_Undefined [OF v, of i] have "e \<noteq> Undefined" by auto
    with error_cases [of e] e i show ?thesis by (auto simp: sys_step_Inl)
  qed
  have idle: "pc (ts ! i) = Idle" if i: "i < length ts" for i
    using st [OF i] m by (auto simp: step_Blocks step_Halted)
  then have qu: "quiescent ts" by (simp add: quiescent_def list_all_length)
  from inv_sys_quiescent [OF v qu] have n: "1 \<le> nmax q"
    and e: "int (empty q + length (queue q)) = nmax q" and f: "full q = length (queue q)"
    by (simp_all add: inv_rest_def)
  note cnt = quiescent_counts [OF c qu b]
  from u idle obtain k where k: "k < length ts" "todo (ts ! k) \<noteq> []"
    by (auto simp: finished_def list_all_length)
  have next_call: "todo (ts ! i) = [] \<or>
      ((\<exists>msg cs. todo (ts ! i) = Push msg # cs) \<and> empty q = 0) \<or>
      ((\<exists>cs. todo (ts ! i) = Pop # cs) \<and> full q = 0)" if i: "i < length ts" for i
    using st [OF i] m by (auto simp: step_Blocks step_Halted)
  show False
  proof (cases "empty q = 0")
    case True
    with e f n have fp: "full q \<noteq> 0" and lp: "length (queue q) \<noteq> 0" by auto
    have "pops (todo (ts ! i)) = 0" if i: "i < length ts" for i
    proof -
      from pu i have "pure (todo (ts ! i))" by (simp add: list_all_length)
      with next_call [OF i] fp show ?thesis by (auto simp: pure_def)
    qed
    then have "total (\<lambda>t. pops (todo t)) ts = 0"
      by (simp add: total_zero list_all_length)
    with cnt lp show False by simp
  next
    case False
    with next_call [OF k(1)] k(2) obtain cs where kp: "todo (ts ! k) = Pop # cs" and f0: "full q = 0"
      by auto
    have "length (pushed (todo (ts ! i))) = 0" if i: "i < length ts" for i
    proof -
      from pu i have "pure (todo (ts ! i))" by (simp add: list_all_length)
      with next_call [OF i] False show ?thesis by (auto simp: pure_def)
    qed
    then have "total (\<lambda>t. length (pushed (todo t))) ts = 0"
      by (simp add: total_zero list_all_length)
    with cnt f f0 have "total (\<lambda>t. pops (todo t)) ts = 0" by simp
    with k(1) have "pops (todo (ts ! k)) = 0"
      by (simp add: total_zero list_all_length)
    with kp show False by simp
  qed
qed

lemma completes:
  assumes "draining progs s"
  shows "\<exists>sched s'. run step sched s = Inr s' \<and> list_all finished (snd s')"
  using assms
proof (induction "total work (snd s)" arbitrary: s rule: less_induct)
  case less
  obtain q ts where s: "s = (q, ts)" by (cases s)
  show ?case
  proof (cases "list_all finished ts")
    case True
    with s have "run step [] s = Inr s \<and> list_all finished (snd s)" by simp
    then show ?thesis by blast
  next
    case False
    from progress [OF less.prems [unfolded s] False] obtain i s1
      where st: "sys_step step i (q, ts) = Inr s1" by blast
    obtain q1 ts1 where s1: "s1 = (q1, ts1)" by (cases s1)
    from sys_step_work [OF st [unfolded s1]] s s1 have "total work (snd s1) < total work (snd s)"
      by simp
    moreover from draining_step [OF less.prems] st s have "draining progs s1" by simp
    ultimately obtain sched s' where "run step sched s1 = Inr s'" "list_all finished (snd s')"
      using less.hyps by blast
    with st s have "run step (i # sched) s = Inr s' \<and> list_all finished (snd s')" by simp
    then show ?thesis by blast
  qed
qed

lemma draining_run:
  assumes "list_all pure progs" and "total pops progs = total (\<lambda>cs. length (pushed cs)) progs"
    and "run step sched (start n progs) = Inr s"
  shows "draining progs s"
proof (rule run_invariant [of "draining progs" step, OF _ _ assms(3)])
  show "draining progs s'" if "draining progs s" "sys_step step i s = Inr s'" for i s s'
    using that by (rule draining_step)
  from assms(1) have "list_all (\<lambda>t. pure (todo t)) (map spawn progs)"
    by (simp add: list_all_iff spawn_def)
  with assms(2) conserved_start [of progs n] show "draining progs (start n progs)"
    by (simp add: draining_def start_def)
qed

lemma run_completes:
  assumes "list_all pure progs" and "total pops progs = total (\<lambda>cs. length (pushed cs)) progs"
    and "run step sched (start n progs) = Inr s"
  shows "\<exists>sched' q' ts'. run step (sched @ sched') (start n progs) = Inr (q', ts') \<and>
           list_all finished ts'"
proof -
  from completes [OF draining_run [OF assms]] obtain sched' s'
    where "run step sched' s = Inr s'" "list_all finished (snd s')" by blast
  with assms(3) have "run step (sched @ sched') (start n progs) = Inr (fst s', snd s') \<and>
      list_all finished (snd s')"
    by (simp add: run_append)
  then show ?thesis by blast
qed

lemma no_loss_completes:
  "(run step sched (start k (producers_consumer vs)) = Inr (q, ts) \<and> list_all finished ts \<longrightarrow>
      mset (got (last ts)) = mset vs \<and> (distinct vs \<longrightarrow> distinct (got (last ts))) \<and>
      list_all (\<lambda>t. got t = []) (butlast ts) \<and> queue q = []) \<and>
   (run step sched (start k (producers_consumer vs)) = Inr (q, ts) \<longrightarrow>
      (\<exists>sched' q' ts'.
         run step (sched @ sched') (start k (producers_consumer vs)) = Inr (q', ts') \<and>
         list_all finished ts'))"
  using no_loss [of sched k vs q ts]
    run_completes [OF pure_producers_consumer balanced_producers_consumer, of sched k vs "(q, ts)"]
  by blast

subsection \<open>One producer, one consumer\<close>

lemma producer_step:
  assumes "step q p = Inr (q', p')" and "producer p"
  shows "producer p'"
    and "queue q' @ in_flight (pc p') @ pushed (todo p') =
         queue q @ in_flight (pc p) @ pushed (todo p)"
    and "front_ok (queue q) x \<Longrightarrow> front_ok (queue q') x"
  using assms
  by (auto simp: step_def producer_def Lock_def unLock_def and_then_Inr
      split: step_splits elim: front_ok.elims)

lemma consumer_step:
  assumes "step q c = Inr (q', c')" and "consumer c" and "front_ok (queue q) (pc c)"
  shows "consumer c'"
    and "front_ok (queue q') (pc c')"
    and "got c' @ in_flight (pc c') @ queue q' = got c @ in_flight (pc c) @ queue q"
  using assms
  by (auto simp: step_def consumer_def Lock_def unLock_def and_then_Inr
      split: step_splits)

lemma fifo_step:
  assumes "fifo vs s" and "sys_step step i s = Inr s'"
  shows "fifo vs s'"
proof -
  from assms(1) obtain q p c where s: "s = (q, [p, c])"
    and p: "producer p" and c: "consumer c" and h: "front_ok (queue q) (pc c)"
    and v: "got c @ in_flight (pc c) @ queue q @ in_flight (pc p) @ pushed (todo p) = vs"
    by (auto simp: fifo_def split: prod.splits list.splits)
  from assms(2) s have "i = 0 \<or> i = 1"
    by (auto simp: sys_step_Inr)
  then show ?thesis
  proof
    assume i: "i = 0"
    with assms(2) s obtain q' p' where st: "step q p = Inr (q', p')" and s': "s' = (q', [p', c])"
      by (auto simp: sys_step_Inr)
    note ps = producer_step [OF st p]
    from ps(2) v have "got c @ in_flight (pc c) @ queue q' @ in_flight (pc p') @ pushed (todo p') = vs"
      by simp
    with ps(1) c ps(3) [OF h] s' show ?thesis by (simp add: fifo_def)
  next
    assume i: "i = 1"
    with assms(2) s obtain q' c' where st: "step q c = Inr (q', c')" and s': "s' = (q', [p, c'])"
      by (auto simp: sys_step_Inr)
    note cs = consumer_step [OF st c h]
    from cs(3) have "(got c' @ in_flight (pc c') @ queue q') @ in_flight (pc p) @ pushed (todo p) =
        (got c @ in_flight (pc c) @ queue q) @ in_flight (pc p) @ pushed (todo p)"
      by (simp only:)
    with v have "got c' @ in_flight (pc c') @ queue q' @ in_flight (pc p) @ pushed (todo p) = vs"
      by simp
    with p cs(1,2) s' show ?thesis by (simp add: fifo_def)
  qed
qed

lemma fifo_start: "fifo vs (start n [map Push vs, replicate m Pop])"
  by (simp add: fifo_def start_def producer_def consumer_def spawn_def new_MsgQueue_fields)

lemma fifo_run:
  "run step sched (start n [map Push vs, replicate m Pop]) = Inr s \<Longrightarrow> fifo vs s"
  using run_invariant [of "fifo vs" step, OF fifo_step fifo_start] .

lemma fifo_both:
  "(run step sched (start n [map Push vs, replicate (length vs) Pop]) = Inr (q, ts) \<longrightarrow>
      take (length (got (ts ! 1))) vs = got (ts ! 1) \<and>
      (list_all finished ts \<longrightarrow> got (ts ! 1) = vs)) \<and>
   (calls cs (new_MsgQueue n) = Inr (q', rets) \<longrightarrow>
      take (length rets) (pushed cs) = rets \<and>
      (pops cs = length (pushed cs) \<longrightarrow> rets = pushed cs))"
proof (intro conjI impI)
  assume r: "run step sched (start n [map Push vs, replicate (length vs) Pop]) = Inr (q, ts)"
  from fifo_run [OF r] obtain p c where ts: "ts = [p, c]"
    and v: "got c @ in_flight (pc c) @ queue q @ in_flight (pc p) @ pushed (todo p) = vs"
    by (auto simp: fifo_def split: list.splits)
  from v have "take (length (got c)) vs = got c"
    by (metis append_eq_conv_conj)
  with ts show "take (length (got (ts ! 1))) vs = got (ts ! 1)" by simp
  assume f: "list_all finished ts"
  have "queue q = []"
    by (rule conservation(1) [OF r f]) simp
  with v f ts show "got (ts ! 1) = vs" by (simp add: finished_def)
next
  assume r: "calls cs (new_MsgQueue n) = Inr (q', rets)"
  from calls_fifo [OF r] have a: "rets @ queue q' = pushed cs" and l: "length rets = pops cs"
    by (simp_all add: new_MsgQueue_fields)
  from a show "take (length rets) (pushed cs) = rets"
    by (metis append_eq_conv_conj)
  assume "pops cs = length (pushed cs)"
  with a l show "rets = pushed cs"
    by (metis append_eq_conv_conj take_all order_refl)
qed

text \<open>
  Claim C3. FIFO order on MsgQueue. One thread pushes the values \<open>vs\<close> in order and one
  thread, the only consumer, pops as many times; their statements interleave in any
  way. At every moment the values the consumer has got are the first values of \<open>vs\<close>, in
  order; when both threads have finished, they are \<open>vs\<close>; and every interleaving can be
  continued until both have finished. Likewise for one thread that makes pushes and
  pops one after the other and is never blocked: the values popped are the first values
  pushed, in order, and all of them if there are as many pops as pushes.
\<close>

theorem fifo_order:
  "(run step sched (start n [map Push vs, replicate (length vs) Pop]) = Inr (q, ts) \<longrightarrow>
      take (length (got (ts ! 1))) vs = got (ts ! 1) \<and>
      (list_all finished ts \<longrightarrow> got (ts ! 1) = vs) \<and>
      (\<exists>sched' q' ts'.
         run step (sched @ sched') (start n [map Push vs, replicate (length vs) Pop]) =
           Inr (q', ts') \<and> list_all finished ts')) \<and>
   (calls cs (new_MsgQueue n) = Inr (q1, rets) \<longrightarrow>
      take (length rets) (pushed cs) = rets \<and>
      (pops cs = length (pushed cs) \<longrightarrow> rets = pushed cs))"
proof -
  have "\<exists>sched' q' ts'.
         run step (sched @ sched') (start n [map Push vs, replicate (length vs) Pop]) =
           Inr (q', ts') \<and> list_all finished ts'"
    if "run step sched (start n [map Push vs, replicate (length vs) Pop]) = Inr (q, ts)"
    by (rule run_completes [OF _ _ that]) (simp_all add: pure_def)
  with fifo_both [of sched n vs q ts cs q1 rets] show ?thesis by blast
qed

theorem fifo_order_witness:
  "run step [0, 0, 0, 0, 0, 1, 0, 1, 1, 1, 1, 0, 1, 0, 0, 0, 1, 1, 1, 1, 1, 1]
     (start 2 [map Push [5, 6 :: int], replicate (length [5, 6 :: int]) Pop]) =
   Inr (\<lparr>nmax = 2, queue = [], mutex = 1, full = 0, empty = 2\<rparr>,
        [\<lparr>todo = [], pc = Idle, got = []\<rparr>, \<lparr>todo = [], pc = Idle, got = [5, 6]\<rparr>]) \<and>
   list_all finished [\<lparr>todo = [], pc = Idle :: int pc, got = [] :: int list\<rparr>,
              \<lparr>todo = [], pc = Idle, got = [5, 6]\<rparr>] \<and>
   (\<exists>q. calls [Push 1, Pop, Push 2, Push 3, Pop, Pop] (new_MsgQueue 2) =
      Inr (q, [1, 2, 3 :: int]))"
proof -
  let ?q = "\<lparr>nmax = 2, queue = [] :: int list, mutex = 1, full = 0, empty = 2\<rparr>"
  let ?ts = "[\<lparr>todo = [], pc = Idle :: int pc, got = [] :: int list\<rparr>,
              \<lparr>todo = [], pc = Idle, got = [5, 6]\<rparr>]"
  let ?cs = "[Push 1, Pop, Push 2, Push 3, Pop, Pop :: int call]"
  let ?sched = "[0, 0, 0, 0, 0, 1, 0, 1, 1, 1, 1, 0, 1, 0, 0, 0, 1, 1, 1, 1, 1, 1 :: nat]"
  have r: "run step ?sched
     (start 2 [map Push [5, 6 :: int], replicate (length [5, 6 :: int]) Pop]) = Inr (?q, ?ts)"
    by code_simp
  have f: "list_all finished ?ts" by (simp add: finished_def)
  have c: "calls ?cs (new_MsgQueue 2) = Inr (?q, [1, 2, 3])"
    by code_simp
  have p: "pops ?cs = length (pushed ?cs)" by simp
  from fifo_order [where sched = ?sched and n = 2 and vs = "[5, 6]" and q = ?q and ts = ?ts,
      THEN conjunct1] r f
  have "got (?ts ! 1) = [5, 6]" by blast
  moreover from fifo_order [where cs = ?cs and n = 2 and ?q1.0 = ?q and rets = "[1, 2, 3]",
      THEN conjunct2] c p
  have "[1, 2, 3] = pushed ?cs" by blast
  ultimately show ?thesis using r f c by blast
qed

text \<open>
  Claim C10. No loss, no duplication. One thread for each value of \<open>vs\<close> pushes its value
  into a queue of any capacity, and one consumer pops as many times as there are values.
  Under every interleaving of their statements, when all threads have finished the
  values the consumer has got are the values pushed, each as often as it was pushed (so
  none twice, if the values are distinct), the producers have got nothing and the queue
  is empty; every interleaving can be continued until all threads have finished; and no
  two threads are ever between the construction and the destruction of their \<open>Lock\<close> at
  the same time, which is where the storage is read and written.
\<close>

theorem no_loss_no_duplication:
  "(run step sched (start k (producers_consumer vs)) = Inr (q, ts) \<and> list_all finished ts \<longrightarrow>
      mset (got (last ts)) = mset vs \<and> (distinct vs \<longrightarrow> distinct (got (last ts))) \<and>
      list_all (\<lambda>t. got t = []) (butlast ts) \<and> queue q = []) \<and>
   (run step sched (start k (producers_consumer vs)) = Inr (q, ts) \<longrightarrow>
      (\<exists>sched' q' ts'.
         run step (sched @ sched') (start k (producers_consumer vs)) = Inr (q', ts') \<and>
         list_all finished ts')) \<and>
   (run step sched (start k (producers_consumer vs)) = Inr (q, ts) \<and>
    i < length ts \<and> j < length ts \<and> i \<noteq> j \<longrightarrow>
      in_cs (pc (ts ! i)) + in_cs (pc (ts ! j)) \<le> 1)"
  using no_loss_completes [of sched k vs q ts]
    mutual_exclusion [of sched k "producers_consumer vs" q ts i j]
  by blast

theorem no_loss_no_duplication_witness:
  "run step [1, 0, 1, 1, 1, 0, 1, 2, 0, 0, 2, 2, 0, 2, 2, 2, 2, 2, 2, 2, 2, 2]
     (start 2 (producers_consumer [10, 20 :: int])) =
   Inr (\<lparr>nmax = 2, queue = [], mutex = 1, full = 0, empty = 2\<rparr>,
        [\<lparr>todo = [], pc = Idle, got = []\<rparr>, \<lparr>todo = [], pc = Idle, got = []\<rparr>,
         \<lparr>todo = [], pc = Idle, got = [20, 10]\<rparr>]) \<and>
   mset [20, 10 :: int] = mset [10, 20] \<and>
   run step [1, 0, 1] (start 2 (producers_consumer [10, 20 :: int])) =
   Inr (\<lparr>nmax = 2, queue = [], mutex = 0, full = 0, empty = 0\<rparr>,
        [\<lparr>todo = [], pc = Push_lock 10, got = []\<rparr>, \<lparr>todo = [], pc = Push_queue 20, got = []\<rparr>,
         \<lparr>todo = [Pop, Pop], pc = Idle, got = []\<rparr>]) \<and>
   in_cs (Push_lock (10 :: int)) + in_cs (Push_queue (20 :: int)) \<le> 1 \<and>
   (\<exists>sched' q' ts'.
      run step ([1, 0, 1] @ sched') (start 2 (producers_consumer [10, 20 :: int])) =
        Inr (q', ts') \<and> list_all finished ts')"
proof -
  let ?q = "\<lparr>nmax = 2, queue = [] :: int list, mutex = 1, full = 0, empty = 2\<rparr>"
  let ?ts = "[\<lparr>todo = [], pc = Idle, got = []\<rparr>, \<lparr>todo = [], pc = Idle, got = []\<rparr>,
         \<lparr>todo = [], pc = Idle :: int pc, got = [20, 10 :: int]\<rparr>]"
  let ?sched = "[1, 0, 1, 1, 1, 0, 1, 2, 0, 0, 2, 2, 0, 2, 2, 2, 2, 2, 2, 2, 2, 2 :: nat]"
  let ?q2 = "\<lparr>nmax = 2, queue = [] :: int list, mutex = 0, full = 0, empty = 0\<rparr>"
  let ?ts2 = "[\<lparr>todo = [], pc = Push_lock 10, got = []\<rparr>,
         \<lparr>todo = [], pc = Push_queue 20, got = []\<rparr>,
         \<lparr>todo = [Pop, Pop], pc = Idle :: int pc, got = [] :: int list\<rparr>]"
  have r: "run step ?sched (start 2 (producers_consumer [10, 20 :: int])) = Inr (?q, ?ts)"
    by code_simp
  have f: "list_all finished ?ts"
    by (simp add: finished_def)
  have r2: "run step [1, 0, 1] (start 2 (producers_consumer [10, 20 :: int])) = Inr (?q2, ?ts2)"
    by code_simp
  from no_loss_no_duplication [where sched = ?sched and k = 2 and vs = "[10, 20]" and q = ?q
      and ts = ?ts, THEN conjunct1] r f
  have "mset (got (last ?ts)) = mset [10, 20]" by blast
  then have A: "mset [20, 10 :: int] = mset [10, 20]" by simp
  have l: "0 < length ?ts2" "1 < length ?ts2" "(0 :: nat) \<noteq> 1" by simp_all
  from no_loss_no_duplication [where sched = "[1, 0, 1]" and k = 2 and vs = "[10, 20]" and q = ?q2
      and ts = ?ts2 and i = 0 and j = 1, THEN conjunct2, THEN conjunct2] r2 l
  have "in_cs (pc (?ts2 ! 0)) + in_cs (pc (?ts2 ! 1)) \<le> 1" by blast
  then have B: "in_cs (Push_lock (10 :: int)) + in_cs (Push_queue (20 :: int)) \<le> 1" by simp
  from no_loss_no_duplication [where sched = "[1, 0, 1]" and k = 2 and vs = "[10, 20]" and q = ?q2
      and ts = ?ts2, THEN conjunct2, THEN conjunct1] r2
  have C: "\<exists>sched' q' ts'.
      run step ([1, 0, 1] @ sched') (start 2 (producers_consumer [10, 20 :: int])) =
        Inr (q', ts') \<and> list_all finished ts'" by blast
  from r A r2 B C show ?thesis by (intro conjI)
qed

section \<open>MsgQueueReplace: sequences of calls\<close>

lemma inv_restR_new: "inv_restR (new_MsgQueueReplace n)"
  by (simp add: inv_restR_def new_MsgQueueReplace_fields)

lemma inv_restR_pushR:
  assumes "inv_restR q"
  shows "\<exists>q'. pushR msg q = Inr q' \<and> inv_restR q' \<and> nmaxR q' = nmaxR q \<and>
           queueR q' = (if nmaxR q \<le> int (length (queueR q)) then tl (queueR q) else queueR q) @ [msg] \<and>
           fullR q' = (if nmaxR q \<le> int (length (queueR q)) then fullR q else fullR q + 1)"
proof (cases "queueR q")
  case Nil
  with assms show ?thesis by (simp add: inv_restR_def pushR_eq)
next
  case (Cons old rest)
  with assms show ?thesis by (simp add: inv_restR_def pushR_eq)
qed

lemma inv_restR_popR:
  assumes "inv_restR q"
  shows "popR q =
           (case queueR q of
              [] \<Rightarrow> Inl Blocks
            | ret # rest \<Rightarrow> Inr (q\<lparr>fullR := fullR q - 1, queueR := rest\<rparr>, ret))"
    and "popR q = Inr (q', ret) \<Longrightarrow> inv_restR q'"
  using assms by (auto simp: inv_restR_def popR_eq split: list.splits)

lemma inv_restR_popR_nmax: "inv_restR q \<Longrightarrow> popR q = Inr (q', ret) \<Longrightarrow> nmaxR q' = nmaxR q"
  by (auto simp: inv_restR_def popR_eq split: list.splits if_splits)

lemma callsR_inv_restR: "inv_restR q \<Longrightarrow> callsR cs q = Inr (q', rets) \<Longrightarrow> inv_restR q' \<and> nmaxR q' = nmaxR q"
proof (induction cs arbitrary: q q' rets)
  case Nil
  then show ?case by simp
next
  case (Cons c cs)
  show ?case
  proof (cases c)
    case (Push msg)
    from inv_restR_pushR [OF \<open>inv_restR q\<close>, of msg] obtain q1
      where p: "pushR msg q = Inr q1" and i: "inv_restR q1" and n: "nmaxR q1 = nmaxR q" by blast
    from Cons.prems(2) Push p have "callsR cs q1 = Inr (q', rets)" by simp
    from Cons.IH [OF i this] n show ?thesis by simp
  next
    case Pop
    from Cons.prems(2) Pop obtain q1 r1 where p: "popR q = Inr (q1, r1)"
      by (cases "popR q") auto
    have i: "inv_restR q1" using inv_restR_popR(2) [OF \<open>inv_restR q\<close> p] .
    have n: "nmaxR q1 = nmaxR q" using inv_restR_popR_nmax [OF \<open>inv_restR q\<close> p] .
    from Cons.prems(2) Pop p obtain rs where "callsR cs q1 = Inr (q', rs)"
      by (cases "callsR cs q1") auto
    from Cons.IH [OF i this] n show ?thesis by simp
  qed
qed

lemma callsR_append:
  "callsR (cs @ ds) q =
     (case callsR cs q of
        Inl e \<Rightarrow> Inl e
      | Inr (q', rets) \<Rightarrow>
          (case callsR ds q' of Inl e \<Rightarrow> Inl e | Inr (q'', rets') \<Rightarrow> Inr (q'', rets @ rets')))"
proof (induction cs arbitrary: q)
  case Nil
  show ?case by (simp split: sum.splits prod.splits)
next
  case (Cons c cs)
  show ?case
  proof (cases c)
    case (Push msg)
    then show ?thesis by (simp add: Cons.IH split: sum.splits prod.splits)
  next
    case Pop
    then show ?thesis by (simp add: Cons.IH split: sum.splits prod.splits)
  qed
qed

lemma callsR_no_Undefined: "inv_restR q \<Longrightarrow> callsR cs q \<noteq> Inl Undefined"
proof (induction cs arbitrary: q)
  case Nil
  then show ?case by simp
next
  case (Cons c cs)
  show ?case
  proof (cases c)
    case (Push msg)
    from inv_restR_pushR [OF Cons.prems, of msg] obtain q1 where p: "pushR msg q = Inr q1"
      and i: "inv_restR q1" by blast
    from Cons.IH [OF i] p Push show ?thesis by simp
  next
    case Pop
    show ?thesis
    proof (cases "popR q")
      case (Inl e)
      with Cons.prems have "e = Blocks" by (auto simp: inv_restR_popR(1) split: list.splits)
      with Inl Pop show ?thesis by simp
    next
      case (Inr x)
      obtain q1 r1 where x: "x = (q1, r1)" by (cases x)
      from inv_restR_popR(2) [OF Cons.prems] Inr x have "inv_restR q1" by simp
      from Cons.IH [OF this] Inr x Pop show ?thesis by (auto split: sum.splits)
    qed
  qed
qed

lemma callsR_invariant:
  assumes "callsR cs (new_MsgQueueReplace n) = Inr (q, rets)"
  shows "0 \<le> int (length (queueR q)) \<and> int (length (queueR q)) \<le> nmaxR q \<and>
         nmaxR q = max 1 n \<and> length (queueR q) = fullR q \<and>
         (\<forall>msg. \<exists>q'. pushR msg q = Inr q' \<and>
            fullR q' = (if nmaxR q \<le> int (length (queueR q)) then fullR q else fullR q + 1)) \<and>
         (if fullR q = 0 then popR q = Inl Blocks
          else \<exists>q' ret. popR q = Inr (q', ret) \<and> fullR q' + 1 = fullR q)"
proof -
  have i: "inv_restR q" and n: "nmaxR q = max 1 n"
    using callsR_inv_restR [OF inv_restR_new assms] by (simp_all add: new_MsgQueueReplace_fields)
  have "\<exists>q'. pushR msg q = Inr q' \<and>
            fullR q' = (if nmaxR q \<le> int (length (queueR q)) then fullR q else fullR q + 1)" for msg
    using inv_restR_pushR [OF i, of msg] by blast
  moreover have "if fullR q = 0 then popR q = Inl Blocks
          else \<exists>q' ret. popR q = Inr (q', ret) \<and> fullR q' + 1 = fullR q"
    using i by (auto simp: inv_restR_popR(1) inv_restR_def split: list.splits)
  ultimately show ?thesis using i n by (simp add: inv_restR_def)
qed

text \<open>
  Claim C1. Invariant of MsgQueueReplace. After every sequence of calls of \<open>push\<close> and
  \<open>pop\<close>, made one after the other on a freshly constructed queue, the size of the
  storage is between 0 and \<open>nmax\<close> and equals the count of \<open>full\<close>. The next \<open>push\<close>
  returns, and leaves \<open>full\<close> as it is when it replaces (the size is at least \<open>nmax\<close>)
  and raises it by one when it does not; the next \<open>pop\<close> blocks when \<open>full\<close> is zero and
  otherwise returns and lowers \<open>full\<close> by one. When the calls are made by several
  threads and their statements interleave, the size of the storage is between 0 and
  \<open>nmax\<close> in every reachable state, and equals the count of \<open>full\<close> whenever no call is
  in progress.
\<close>

theorem replace_queue_invariant:
  "(callsR cs (new_MsgQueueReplace n) = Inr (q, rets) \<longrightarrow>
      0 \<le> int (length (queueR q)) \<and> int (length (queueR q)) \<le> nmaxR q \<and>
      nmaxR q = max 1 n \<and> length (queueR q) = fullR q \<and>
      (\<forall>msg. \<exists>q'. pushR msg q = Inr q' \<and>
         fullR q' = (if nmaxR q \<le> int (length (queueR q)) then fullR q else fullR q + 1)) \<and>
      (if fullR q = 0 then popR q = Inl Blocks
       else \<exists>q' ret. popR q = Inr (q', ret) \<and> fullR q' + 1 = fullR q)) \<and>
   (run stepR sched (startR n progs) = Inr (q1, ts) \<longrightarrow>
      0 \<le> int (length (queueR q1)) \<and> int (length (queueR q1)) \<le> nmaxR q1 \<and>
      nmaxR q1 = max 1 n \<and> (quiescentR ts \<longrightarrow> length (queueR q1) = fullR q1))"
  using callsR_invariant [of cs n q rets] boundsR_run [of sched n progs q1 ts]
  by blast

theorem replace_queue_invariant_witness:
  "callsR [Push 7, Push 8, Pop, Push 9] (new_MsgQueueReplace 1) =
     Inr (\<lparr>nmaxR = 1, queueR = [9 :: int], mutexR = 1, fullR = 1\<rparr>, [8]) \<and>
   length (queueR \<lparr>nmaxR = 1, queueR = [9 :: int], mutexR = 1, fullR = 1\<rparr>) =
     fullR \<lparr>nmaxR = 1, queueR = [9 :: int], mutexR = 1, fullR = 1\<rparr> \<and>
   run stepR [0, 0, 0, 0, 1, 0, 1, 1, 1, 1] (startR 1 [[Push 7], [Pop :: int call]]) =
     Inr (\<lparr>nmaxR = 1, queueR = [], mutexR = 1, fullR = 0\<rparr>,
          [\<lparr>todo = [], pc = IdleR, got = []\<rparr>, \<lparr>todo = [], pc = IdleR, got = [7]\<rparr>]) \<and>
   quiescentR [\<lparr>todo = [], pc = IdleR :: int pcR, got = [] :: int list\<rparr>,
               \<lparr>todo = [], pc = IdleR, got = [7]\<rparr>] \<and>
   length (queueR \<lparr>nmaxR = 1, queueR = [] :: int list, mutexR = 1, fullR = 0\<rparr>) =
     fullR \<lparr>nmaxR = 1, queueR = [] :: int list, mutexR = 1, fullR = 0\<rparr>"
proof -
  let ?q = "\<lparr>nmaxR = 1, queueR = [9 :: int], mutexR = 1, fullR = 1\<rparr>"
  let ?q1 = "\<lparr>nmaxR = 1, queueR = [] :: int list, mutexR = 1, fullR = 0\<rparr>"
  let ?ts = "[\<lparr>todo = [], pc = IdleR :: int pcR, got = [] :: int list\<rparr>,
               \<lparr>todo = [], pc = IdleR, got = [7]\<rparr>]"
  have c: "callsR [Push 7, Push 8, Pop, Push 9] (new_MsgQueueReplace 1) = Inr (?q, [8])"
    by code_simp
  have r: "run stepR [0, 0, 0, 0, 1, 0, 1, 1, 1, 1] (startR 1 [[Push 7], [Pop :: int call]]) =
     Inr (?q1, ?ts)"
    by code_simp
  have qu: "quiescentR ?ts" by (simp add: quiescentR_def)
  from replace_queue_invariant [where cs = "[Push 7, Push 8, Pop, Push 9]" and n = 1 and q = ?q
      and rets = "[8]", THEN conjunct1] c
  have A: "length (queueR ?q) = fullR ?q" by blast
  from replace_queue_invariant [where sched = "[0, 0, 0, 0, 1, 0, 1, 1, 1, 1]" and n = 1
      and progs = "[[Push 7], [Pop]]" and ?q1.0 = ?q1 and ts = ?ts, THEN conjunct2] r qu
  have B: "length (queueR ?q1) = fullR ?q1" by blast
  from c A r qu B show ?thesis by (intro conjI)
qed

text \<open>After pushes, the storage holds the newest messages, as many as fit.\<close>

lemma pushesR:
  assumes "inv_restR q"
  shows "\<exists>q'. callsR (map Push vs) q = Inr (q', []) \<and> inv_restR q' \<and> nmaxR q' = nmaxR q \<and>
           queueR q' = drop (length (queueR q @ vs) - nat (nmaxR q)) (queueR q @ vs)"
  using assms
proof (induction vs arbitrary: q)
  case Nil
  then have "length (queueR q) \<le> nat (nmaxR q)" by (auto simp: inv_restR_def)
  with Nil show ?case by simp
next
  case (Cons v vs)
  from inv_restR_pushR [OF Cons.prems, of v] obtain q1
    where p: "pushR v q = Inr q1" and i: "inv_restR q1" and n: "nmaxR q1 = nmaxR q"
      and c: "queueR q1 = (if nmaxR q \<le> int (length (queueR q)) then tl (queueR q) else queueR q) @ [v]"
    by blast
  from Cons.IH [OF i] obtain q' where r: "callsR (map Push vs) q1 = Inr (q', [])"
    and i': "inv_restR q'" and n': "nmaxR q' = nmaxR q1"
    and c': "queueR q' = drop (length (queueR q1 @ vs) - nat (nmaxR q1)) (queueR q1 @ vs)"
    by blast
  have "drop (length (queueR q1 @ vs) - nat (nmaxR q1)) (queueR q1 @ vs) =
        drop (length (queueR q @ v # vs) - nat (nmaxR q)) (queueR q @ v # vs)"
  proof (cases "nmaxR q \<le> int (length (queueR q))")
    case True
    with Cons.prems have l: "length (queueR q) = nat (nmaxR q)" and ne: "queueR q \<noteq> []"
      by (auto simp: inv_restR_def)
    from ne obtain x xs where x: "queueR q = x # xs" by (cases "queueR q") auto
    from l x have k: "nat (nmaxR q) = Suc (length xs)" by simp
    from c True x have c1: "queueR q1 = xs @ [v]" by simp
    have "length (queueR q1 @ vs) - nat (nmaxR q1) = length vs"
      using c1 n k by simp
    moreover have "length (queueR q @ v # vs) - nat (nmaxR q) = Suc (length vs)"
      using x k by simp
    ultimately show ?thesis using c1 x by simp
  next
    case False
    with c n show ?thesis by simp
  qed
  with p r i' n n' c' show ?case by simp
qed

lemma popsR:
  assumes "inv_restR q" and "k \<le> length (queueR q)"
  shows "\<exists>q'. callsR (replicate k Pop) q = Inr (q', take k (queueR q)) \<and> inv_restR q' \<and>
           queueR q' = drop k (queueR q)"
  using assms
proof (induction k arbitrary: q)
  case 0
  then show ?case by simp
next
  case (Suc k)
  from Suc.prems obtain x xs where x: "queueR q = x # xs" by (cases "queueR q") auto
  let ?q1 = "q\<lparr>fullR := fullR q - 1, queueR := xs\<rparr>"
  from Suc.prems(1) x have p: "popR q = Inr (?q1, x)"
    by (simp add: inv_restR_popR(1))
  from inv_restR_popR(2) [OF Suc.prems(1) p] have i: "inv_restR ?q1" .
  from Suc.prems(2) x have "k \<le> length (queueR ?q1)" by simp
  from Suc.IH [OF i this] obtain q' where "callsR (replicate k Pop) ?q1 = Inr (q', take k xs)"
    "inv_restR q'" "queueR q' = drop k xs" by auto
  with p x show ?case by simp
qed

text \<open>
  Claim C2. Replace semantics. When the size of the storage is at least the capacity,
  \<open>push\<close> removes the head and appends the message at the tail, and the size is as
  before. On a queue of capacity 3, pushing 1, 2, 3, 4, 5 and then popping three times
  gives 3, 4, 5 in that order; and for every capacity and every list of values, pushing
  them all and popping as many times as values are kept gives the last values pushed, in
  order.
\<close>

theorem replace_semantics:
  "(0 < mutexR q \<and> 1 \<le> nmaxR q \<and> nmaxR q \<le> int (length (queueR q)) \<longrightarrow>
      pushR msg q = Inr (q\<lparr>queueR := tl (queueR q) @ [msg]\<rparr>) \<and>
      length (tl (queueR q) @ [msg]) = length (queueR q)) \<and>
   (\<exists>q'. callsR [Push 1, Push 2, Push 3, Push 4, Push 5, Pop, Pop, Pop]
            (new_MsgQueueReplace 3) = Inr (q', [3, 4, 5 :: int])) \<and>
   (\<exists>q'. callsR (map Push vs @ replicate (min (length vs) (nat (max 1 n))) Pop)
            (new_MsgQueueReplace n) =
          Inr (q', drop (length vs - nat (max 1 n)) vs))"
proof (intro conjI impI)
  assume a: "0 < mutexR q \<and> 1 \<le> nmaxR q \<and> nmaxR q \<le> int (length (queueR q))"
  then obtain x xs where x: "queueR q = x # xs" by (cases "queueR q") auto
  with a show "pushR msg q = Inr (q\<lparr>queueR := tl (queueR q) @ [msg]\<rparr>)"
    by (simp add: pushR_eq)
  from x show "length (tl (queueR q) @ [msg]) = length (queueR q)" by simp
next
  have "callsR [Push 1, Push 2, Push 3, Push 4, Push 5, Pop, Pop, Pop]
            (new_MsgQueueReplace 3) =
        Inr (\<lparr>nmaxR = 3, queueR = [], mutexR = 1, fullR = 0\<rparr>, [3, 4, 5 :: int])"
    by code_simp
  then show "\<exists>q'. callsR [Push 1, Push 2, Push 3, Push 4, Push 5, Pop, Pop, Pop]
            (new_MsgQueueReplace 3) = Inr (q', [3, 4, 5 :: int])" by blast
next
  let ?k = "min (length vs) (nat (max 1 n))"
  let ?q0 = "new_MsgQueueReplace n :: 'b MsgQueueReplace"
  from pushesR [OF inv_restR_new, of vs n] obtain q1
    where p: "callsR (map Push vs) ?q0 = Inr (q1, [])" and i: "inv_restR q1"
      and c: "queueR q1 = drop (length vs - nat (max 1 n)) vs"
    by (auto simp: new_MsgQueueReplace_fields)
  have l: "length (queueR q1) = ?k" using c by simp
  then have "?k \<le> length (queueR q1)" by simp
  from popsR [OF i this] obtain q' where "callsR (replicate ?k Pop) q1 = Inr (q', take ?k (queueR q1))"
    by blast
  with l have "callsR (replicate ?k Pop) q1 = Inr (q', queueR q1)" by simp
  with p c have "callsR (map Push vs @ replicate ?k Pop) ?q0 =
      Inr (q', drop (length vs - nat (max 1 n)) vs)"
    by (simp add: callsR_append)
  then show "\<exists>q'. callsR (map Push vs @ replicate ?k Pop) ?q0 =
          Inr (q', drop (length vs - nat (max 1 n)) vs)" by blast
qed

theorem replace_semantics_witness:
  "0 < mutexR \<lparr>nmaxR = 2, queueR = [1, 2 :: int], mutexR = 1, fullR = 2\<rparr> \<and>
   pushR 3 \<lparr>nmaxR = 2, queueR = [1, 2 :: int], mutexR = 1, fullR = 2\<rparr> =
     Inr \<lparr>nmaxR = 2, queueR = [2, 3], mutexR = 1, fullR = 2\<rparr>"
  using replace_semantics [of "\<lparr>nmaxR = 2, queueR = [1, 2 :: int], mutexR = 1, fullR = 2\<rparr>" 3
      "[] :: int list" 1]
  by simp

subsection \<open>Push without waiting\<close>

lemma pushR_total:
  assumes "0 < mutexR q" and "1 \<le> nmaxR q"
  shows "\<exists>q'. pushR msg q = Inr q' \<and> mutexR q' = mutexR q \<and> nmaxR q' = nmaxR q \<and>
           fullR q \<le> fullR q'"
proof (cases "queueR q")
  case Nil
  with assms show ?thesis by (simp add: pushR_eq)
next
  case (Cons x xs)
  with assms show ?thesis by (simp add: pushR_eq)
qed

lemma pushesR_total:
  assumes "0 < mutexR q" and "1 \<le> nmaxR q"
  shows "\<exists>q'. callsR (map Push msgs) q = Inr (q', []) \<and> mutexR q' = mutexR q \<and>
           nmaxR q' = nmaxR q \<and> fullR q \<le> fullR q'"
  using assms
proof (induction msgs arbitrary: q)
  case Nil
  then show ?case by simp
next
  case (Cons msg msgs)
  from pushR_total [OF Cons.prems, of msg] obtain q1 where p: "pushR msg q = Inr q1"
    and m: "mutexR q1 = mutexR q" and n: "nmaxR q1 = nmaxR q" and f: "fullR q \<le> fullR q1"
    by blast
  from Cons.prems m n have "0 < mutexR q1" "1 \<le> nmaxR q1" by simp_all
  from Cons.IH [OF this] obtain q' where "callsR (map Push msgs) q1 = Inr (q', [])"
    "mutexR q' = mutexR q1" "nmaxR q' = nmaxR q1" "fullR q1 \<le> fullR q'" by blast
  with p m n f show ?case by simp
qed

lemma pushesR_reachable:
  assumes "callsR cs (new_MsgQueueReplace n) = Inr (q, rets)"
  shows "\<exists>q'. callsR (map Push msgs) q = Inr (q', []) \<and> fullR q \<le> fullR q'"
proof -
  from callsR_inv_restR [OF inv_restR_new assms] have "0 < mutexR q" "1 \<le> nmaxR q"
    by (simp_all add: inv_restR_def)
  from pushesR_total [OF this, of msgs] show ?thesis by blast
qed

lemma pushR_waits:
  "(0 < mutexR q \<and> 1 \<le> nmaxR q \<longrightarrow>
      (\<exists>q'. callsR (map Push msgs) q = Inr (q', []) \<and> mutexR q' = mutexR q \<and>
         nmaxR q' = nmaxR q \<and> fullR q \<le> fullR q')) \<and>
   (run stepR sched (startR n progs) = Inr (q1, ts) \<and> i < length ts \<and> pushingR (ts ! i) \<longrightarrow>
      (if pc (ts ! i) = IdleR \<and> mutexR q1 = 0
       then sys_step stepR i (q1, ts) = Inl Blocks \<and>
            (\<exists>j<length ts. j \<noteq> i \<and> (\<exists>s'. sys_step stepR j (q1, ts) = Inr s'))
       else \<exists>s'. sys_step stepR i (q1, ts) = Inr s'))"
  using pushesR_total [of q msgs] pushingR_step [of sched n progs q1 ts i]
  by blast

text \<open>
  Claim C6. \<open>MsgQueueReplace::push\<close> never blocks on a capacity permit. From every state
  of the queue whose mutex is free and whose capacity is at least 1, whatever the count
  of \<open>full\<close> and the contents of the storage, any number of pushes made one after the
  other all return, and \<open>full\<close> is never lowered; such is the state after every sequence
  of calls on a freshly constructed queue. Among other threads, in every reachable
  state, a thread in \<open>push\<close> that cannot move is at its first statement, waiting for the
  mutex, while another thread can move; at every other place of \<open>push\<close> the thread can
  move.
\<close>

theorem pushR_never_blocks:
  "(0 < mutexR q \<and> 1 \<le> nmaxR q \<longrightarrow>
      (\<exists>q'. callsR (map Push msgs) q = Inr (q', []) \<and> mutexR q' = mutexR q \<and>
         nmaxR q' = nmaxR q \<and> fullR q \<le> fullR q')) \<and>
   (callsR cs (new_MsgQueueReplace n) = Inr (q0, rets) \<longrightarrow>
      (\<exists>q'. callsR (map Push msgs) q0 = Inr (q', []) \<and> fullR q0 \<le> fullR q')) \<and>
   (run stepR sched (startR n progs) = Inr (q1, ts) \<and> i < length ts \<and> pushingR (ts ! i) \<longrightarrow>
      (if pc (ts ! i) = IdleR \<and> mutexR q1 = 0
       then sys_step stepR i (q1, ts) = Inl Blocks \<and>
            (\<exists>j<length ts. j \<noteq> i \<and> (\<exists>s'. sys_step stepR j (q1, ts) = Inr s'))
       else \<exists>s'. sys_step stepR i (q1, ts) = Inr s'))"
proof -
  note a = pushR_waits [of q msgs sched n progs q1 ts i]
  have b: "callsR cs (new_MsgQueueReplace n) = Inr (q0, rets) \<longrightarrow>
      (\<exists>q'. callsR (map Push msgs) q0 = Inr (q', []) \<and> fullR q0 \<le> fullR q')"
    using pushesR_reachable [of cs n q0 rets msgs] by blast
  from a [THEN conjunct1] b a [THEN conjunct2] show ?thesis by (intro conjI)
qed

theorem pushR_never_blocks_witness:
  "0 < mutexR \<lparr>nmaxR = 2, queueR = [] :: int list, mutexR = 1, fullR = 0\<rparr> \<and>
   (\<exists>q'. callsR (map Push [1, 2, 3, 4 :: int]) \<lparr>nmaxR = 2, queueR = [], mutexR = 1, fullR = 0\<rparr> =
      Inr (q', [])) \<and>
   callsR [Push 1, Push 2, Pop] (new_MsgQueueReplace 1) =
     Inr (\<lparr>nmaxR = 1, queueR = [] :: int list, mutexR = 1, fullR = 0\<rparr>, [2]) \<and>
   (\<exists>q'. callsR (map Push [3, 4, 5]) \<lparr>nmaxR = 1, queueR = [] :: int list, mutexR = 1, fullR = 0\<rparr> =
      Inr (q', [])) \<and>
   run stepR [1, 1, 1] (startR 1 [[Pop], [Push (5 :: int)]]) =
     Inr (\<lparr>nmaxR = 1, queueR = [5], mutexR = 0, fullR = 0\<rparr>,
          [\<lparr>todo = [Pop], pc = IdleR, got = []\<rparr>, \<lparr>todo = [], pc = PushR_full, got = []\<rparr>]) \<and>
   (\<exists>s'. sys_step stepR 1
      (\<lparr>nmaxR = 1, queueR = [5 :: int], mutexR = 0, fullR = 0\<rparr>,
       [\<lparr>todo = [Pop], pc = IdleR, got = []\<rparr>, \<lparr>todo = [], pc = PushR_full, got = []\<rparr>]) =
      Inr s')"
proof -
  let ?q = "\<lparr>nmaxR = 2, queueR = [] :: int list, mutexR = 1, fullR = 0\<rparr>"
  let ?qa = "\<lparr>nmaxR = 1, queueR = [] :: int list, mutexR = 1, fullR = 0\<rparr>"
  let ?q1 = "\<lparr>nmaxR = 1, queueR = [5 :: int], mutexR = 0, fullR = 0\<rparr>"
  let ?ts = "[\<lparr>todo = [Pop], pc = IdleR, got = []\<rparr>,
              \<lparr>todo = [], pc = PushR_full :: int pcR, got = [] :: int list\<rparr>]"
  have h1: "0 < mutexR ?q \<and> 1 \<le> nmaxR ?q" by simp
  from pushR_never_blocks [where q = ?q and msgs = "[1, 2, 3, 4]", THEN conjunct1] h1
  have c1: "\<exists>q'. callsR (map Push [1, 2, 3, 4]) ?q = Inr (q', [])" by blast
  have c: "callsR [Push 1, Push 2, Pop] (new_MsgQueueReplace 1) = Inr (?qa, [2])"
    by code_simp
  from pushR_never_blocks [where cs = "[Push 1, Push 2, Pop]" and n = 1 and ?q0.0 = ?qa
      and rets = "[2]" and msgs = "[3, 4, 5]", THEN conjunct2, THEN conjunct1] c
  have c0: "\<exists>q'. callsR (map Push [3, 4, 5]) ?qa = Inr (q', [])" by blast
  have r: "run stepR [1, 1, 1] (startR 1 [[Pop], [Push (5 :: int)]]) = Inr (?q1, ?ts)"
    by code_simp
  have "1 < length ?ts" and "pushingR (?ts ! 1)" by (simp_all add: pushingR_def)
  with pushR_never_blocks [where sched = "[1, 1, 1]" and n = 1 and progs = "[[Pop], [Push 5]]"
      and ?q1.0 = ?q1 and ts = ?ts and i = 1, THEN conjunct2, THEN conjunct2] r
  have "if pc (?ts ! 1) = IdleR \<and> mutexR ?q1 = 0
       then sys_step stepR 1 (?q1, ?ts) = Inl Blocks \<and>
            (\<exists>j<length ?ts. j \<noteq> 1 \<and> (\<exists>s'. sys_step stepR j (?q1, ?ts) = Inr s'))
       else \<exists>s'. sys_step stepR 1 (?q1, ?ts) = Inr s'" by blast
  moreover have "\<not> (pc (?ts ! 1) = IdleR \<and> mutexR ?q1 = 0)" by simp
  ultimately have c2: "\<exists>s'. sys_step stepR 1 (?q1, ?ts) = Inr s'" by (simp only: if_False)
  from h1 [THEN conjunct1] c1 c c0 r c2 show ?thesis by (intro conjI)
qed

section \<open>Permits and the lock\<close>

lemma single_mutex:
  assumes "run step sched (start n [cs]) = Inr (q, [t])"
  shows "mutex q + in_cs (pc t) = 1"
  using inv_sys_run [OF assms] by (simp add: inv_sys_def)

lemma single_mutexR:
  assumes "run stepR sched (startR n [cs]) = Inr (q, [t])"
  shows "mutexR q + in_csR (pc t) = 1"
  using inv_sysR_run [OF assms] by (simp add: inv_sysR_def)

lemma permits_MsgQueue:
  assumes r: "run step sched (start n [cs]) = Inr (q, [t])"
  shows "step q t = Inr (q', t') \<Longrightarrow> full q' \<noteq> full q \<or> empty q' \<noteq> empty q \<Longrightarrow>
           mutex q = 1 \<and> mutex q' = 1"
    and "mutex q = 0 \<Longrightarrow> step q t \<noteq> Inl Blocks"
proof -
  note m = single_mutex [OF r]
  show "mutex q = 1 \<and> mutex q' = 1"
    if st: "step q t = Inr (q', t')" and ch: "full q' \<noteq> full q \<or> empty q' \<noteq> empty q"
    using m step_permit [OF st ch] step_thread(2) [OF st] by simp
  show "step q t \<noteq> Inl Blocks" if "mutex q = 0"
    using m that step_in_cs [of t q] by simp
qed

lemma permits_MsgQueueReplace:
  assumes r: "run stepR sched (startR n [cs]) = Inr (q, [t])"
  shows "stepR q t = Inr (q', t') \<Longrightarrow> fullR q' < fullR q \<Longrightarrow> mutexR q = 1 \<and> mutexR q' = 1"
    and "stepR q t = Inr (q', t') \<Longrightarrow> fullR q < fullR q' \<Longrightarrow> mutexR q = 0 \<and> mutexR q' = 0"
    and "mutexR q = 0 \<Longrightarrow> stepR q t \<noteq> Inl Blocks"
proof -
  note m = single_mutexR [OF r]
  show "mutexR q = 1 \<and> mutexR q' = 1" if st: "stepR q t = Inr (q', t')" and ch: "fullR q' < fullR q"
    using m stepR_acquire [OF st ch] stepR_thread(2) [OF st] by simp
  show "mutexR q = 0 \<and> mutexR q' = 0" if st: "stepR q t = Inr (q', t')" and ch: "fullR q < fullR q'"
    using m stepR_release [OF st ch] stepR_thread(2) [OF st] by simp
  show "stepR q t \<noteq> Inl Blocks" if "mutexR q = 0"
    using m that stepR_in_cs [of t q] by simp
qed

lemma permits_single:
  "(run step sched (start n [cs]) = Inr (q, [t]) \<and> step q t = Inr (q', t') \<and>
    (full q' \<noteq> full q \<or> empty q' \<noteq> empty q) \<longrightarrow> mutex q = 1 \<and> mutex q' = 1) \<and>
   (run step sched (start n [cs]) = Inr (q, [t]) \<and> mutex q = 0 \<longrightarrow> step q t \<noteq> Inl Blocks) \<and>
   (run stepR schedR (startR nR [csR]) = Inr (qR, [tR]) \<and> stepR qR tR = Inr (qR', tR') \<and>
    fullR qR' < fullR qR \<longrightarrow> mutexR qR = 1 \<and> mutexR qR' = 1) \<and>
   (run stepR schedR (startR nR [csR]) = Inr (qR, [tR]) \<and> stepR qR tR = Inr (qR', tR') \<and>
    fullR qR < fullR qR' \<longrightarrow> mutexR qR = 0 \<and> mutexR qR' = 0) \<and>
   (run stepR schedR (startR nR [csR]) = Inr (qR, [tR]) \<and> mutexR qR = 0 \<longrightarrow>
    stepR qR tR \<noteq> Inl Blocks)"
  using permits_MsgQueue [of sched n cs q t] permits_MsgQueueReplace [of schedR nR csR qR tR]
  by blast

lemma permits_pool:
  assumes r: "run step sched (start n progs) = Inr (q, ts)" and i: "i < length ts"
  shows "mutex q + total (\<lambda>t. in_cs (pc t)) ts = 1"
    and "sys_step step i (q, ts) = Inr (q', ts') \<Longrightarrow>
           full q' \<noteq> full q \<or> empty q' \<noteq> empty q \<Longrightarrow>
           in_cs (pc (ts ! i)) = 0 \<and> in_cs (pc (ts' ! i)) = 0"
    and "in_cs (pc (ts ! i)) = 1 \<Longrightarrow> sys_step step i (q, ts) \<noteq> Inl Blocks"
proof -
  from inv_sys_run [OF r] show "mutex q + total (\<lambda>t. in_cs (pc t)) ts = 1"
    by (simp add: inv_sys_def)
  show "in_cs (pc (ts ! i)) = 0 \<and> in_cs (pc (ts' ! i)) = 0"
    if st: "sys_step step i (q, ts) = Inr (q', ts')"
      and ch: "full q' \<noteq> full q \<or> empty q' \<noteq> empty q"
  proof -
    from st obtain t' where s: "step q (ts ! i) = Inr (q', t')" and ts': "ts' = ts[i := t']"
      by (auto simp: sys_step_Inr)
    from step_permit [OF s ch] ts' i show ?thesis by simp
  qed
  show "sys_step step i (q, ts) \<noteq> Inl Blocks" if "in_cs (pc (ts ! i)) = 1"
    using step_in_cs [OF that, of q] i by (simp add: sys_step_Inl)
qed

lemma permits_poolR:
  assumes r: "run stepR sched (startR n progs) = Inr (q, ts)" and i: "i < length ts"
  shows "mutexR q + total (\<lambda>t. in_csR (pc t)) ts = 1"
    and "sys_step stepR i (q, ts) = Inr (q', ts') \<Longrightarrow> fullR q' < fullR q \<Longrightarrow>
           in_csR (pc (ts ! i)) = 0 \<and> in_csR (pc (ts' ! i)) = 0"
    and "sys_step stepR i (q, ts) = Inr (q', ts') \<Longrightarrow> fullR q < fullR q' \<Longrightarrow>
           in_csR (pc (ts ! i)) = 1 \<and> in_csR (pc (ts' ! i)) = 1"
    and "in_csR (pc (ts ! i)) = 1 \<Longrightarrow> sys_step stepR i (q, ts) \<noteq> Inl Blocks"
proof -
  from inv_sysR_run [OF r] show "mutexR q + total (\<lambda>t. in_csR (pc t)) ts = 1"
    by (simp add: inv_sysR_def)
  show "in_csR (pc (ts ! i)) = 0 \<and> in_csR (pc (ts' ! i)) = 0"
    if st: "sys_step stepR i (q, ts) = Inr (q', ts')" and ch: "fullR q' < fullR q"
  proof -
    from st obtain t' where s: "stepR q (ts ! i) = Inr (q', t')" and ts': "ts' = ts[i := t']"
      by (auto simp: sys_step_Inr)
    from stepR_acquire [OF s ch] ts' i show ?thesis by simp
  qed
  show "in_csR (pc (ts ! i)) = 1 \<and> in_csR (pc (ts' ! i)) = 1"
    if st: "sys_step stepR i (q, ts) = Inr (q', ts')" and ch: "fullR q < fullR q'"
  proof -
    from st obtain t' where s: "stepR q (ts ! i) = Inr (q', t')" and ts': "ts' = ts[i := t']"
      by (auto simp: sys_step_Inr)
    from stepR_release [OF s ch] ts' i show ?thesis by simp
  qed
  show "sys_step stepR i (q, ts) \<noteq> Inl Blocks" if "in_csR (pc (ts ! i)) = 1"
    using stepR_in_cs [OF that, of q] i by (simp add: sys_step_Inl)
qed

text \<open>
  Claim C8, amended. A thread alone holds the lock exactly when the mutex is zero. In
  \<open>MsgQueue\<close>, every statement that changes \<open>full\<close> or \<open>empty\<close> is executed with the
  mutex free, before and after. In \<open>MsgQueueReplace\<close>, the acquisition of a \<open>full\<close>
  permit (in \<open>pop\<close>) is executed with the mutex free, while the release of a \<open>full\<close>
  permit (in \<open>push\<close>) is executed with the mutex held. In both, no statement executed
  with the mutex held blocks. Among any threads, in every reachable state, the mutex
  is taken exactly when one thread is between the construction and the destruction of
  its \<open>Lock\<close>; a thread of \<open>MsgQueue\<close> that changes \<open>full\<close> or \<open>empty\<close>, and a
  thread of \<open>MsgQueueReplace\<close> that acquires a \<open>full\<close> permit, is not there, before or
  after; a thread of \<open>MsgQueueReplace\<close> that releases a \<open>full\<close> permit is; and a
  thread that is there does not block.
\<close>

theorem permits_and_lock:
  "(run step sched (start n [cs]) = Inr (q, [t]) \<and> step q t = Inr (q', t') \<and>
    (full q' \<noteq> full q \<or> empty q' \<noteq> empty q) \<longrightarrow> mutex q = 1 \<and> mutex q' = 1) \<and>
   (run step sched (start n [cs]) = Inr (q, [t]) \<and> mutex q = 0 \<longrightarrow> step q t \<noteq> Inl Blocks) \<and>
   (run stepR schedR (startR nR [csR]) = Inr (qR, [tR]) \<and> stepR qR tR = Inr (qR', tR') \<and>
    fullR qR' < fullR qR \<longrightarrow> mutexR qR = 1 \<and> mutexR qR' = 1) \<and>
   (run stepR schedR (startR nR [csR]) = Inr (qR, [tR]) \<and> stepR qR tR = Inr (qR', tR') \<and>
    fullR qR < fullR qR' \<longrightarrow> mutexR qR = 0 \<and> mutexR qR' = 0) \<and>
   (run stepR schedR (startR nR [csR]) = Inr (qR, [tR]) \<and> mutexR qR = 0 \<longrightarrow>
    stepR qR tR \<noteq> Inl Blocks) \<and>
   (run step schedP (start nP progs) = Inr (qP, tsP) \<and> i < length tsP \<longrightarrow>
      mutex qP + total (\<lambda>t. in_cs (pc t)) tsP = 1 \<and>
      (sys_step step i (qP, tsP) = Inr (qP', tsP') \<and>
       (full qP' \<noteq> full qP \<or> empty qP' \<noteq> empty qP) \<longrightarrow>
         in_cs (pc (tsP ! i)) = 0 \<and> in_cs (pc (tsP' ! i)) = 0) \<and>
      (in_cs (pc (tsP ! i)) = 1 \<longrightarrow> sys_step step i (qP, tsP) \<noteq> Inl Blocks)) \<and>
   (run stepR schedQ (startR nQ progsR) = Inr (qQ, tsQ) \<and> j < length tsQ \<longrightarrow>
      mutexR qQ + total (\<lambda>t. in_csR (pc t)) tsQ = 1 \<and>
      (sys_step stepR j (qQ, tsQ) = Inr (qQ', tsQ') \<and> fullR qQ' < fullR qQ \<longrightarrow>
         in_csR (pc (tsQ ! j)) = 0 \<and> in_csR (pc (tsQ' ! j)) = 0) \<and>
      (sys_step stepR j (qQ, tsQ) = Inr (qQ', tsQ') \<and> fullR qQ < fullR qQ' \<longrightarrow>
         in_csR (pc (tsQ ! j)) = 1 \<and> in_csR (pc (tsQ' ! j)) = 1) \<and>
      (in_csR (pc (tsQ ! j)) = 1 \<longrightarrow> sys_step stepR j (qQ, tsQ) \<noteq> Inl Blocks))"
proof -
  note a = permits_single [of sched n cs q t q' t' schedR nR csR qR tR qR' tR']
  have b: "run step schedP (start nP progs) = Inr (qP, tsP) \<and> i < length tsP \<longrightarrow>
      mutex qP + total (\<lambda>t. in_cs (pc t)) tsP = 1 \<and>
      (sys_step step i (qP, tsP) = Inr (qP', tsP') \<and>
       (full qP' \<noteq> full qP \<or> empty qP' \<noteq> empty qP) \<longrightarrow>
         in_cs (pc (tsP ! i)) = 0 \<and> in_cs (pc (tsP' ! i)) = 0) \<and>
      (in_cs (pc (tsP ! i)) = 1 \<longrightarrow> sys_step step i (qP, tsP) \<noteq> Inl Blocks)"
    using permits_pool(1) [of schedP nP progs qP tsP i]
      permits_pool(2) [of schedP nP progs qP tsP i qP' tsP']
      permits_pool(3) [of schedP nP progs qP tsP i]
    by blast
  have c: "run stepR schedQ (startR nQ progsR) = Inr (qQ, tsQ) \<and> j < length tsQ \<longrightarrow>
      mutexR qQ + total (\<lambda>t. in_csR (pc t)) tsQ = 1 \<and>
      (sys_step stepR j (qQ, tsQ) = Inr (qQ', tsQ') \<and> fullR qQ' < fullR qQ \<longrightarrow>
         in_csR (pc (tsQ ! j)) = 0 \<and> in_csR (pc (tsQ' ! j)) = 0) \<and>
      (sys_step stepR j (qQ, tsQ) = Inr (qQ', tsQ') \<and> fullR qQ < fullR qQ' \<longrightarrow>
         in_csR (pc (tsQ ! j)) = 1 \<and> in_csR (pc (tsQ' ! j)) = 1) \<and>
      (in_csR (pc (tsQ ! j)) = 1 \<longrightarrow> sys_step stepR j (qQ, tsQ) \<noteq> Inl Blocks)"
    using permits_poolR(1) [of schedQ nQ progsR qQ tsQ j]
      permits_poolR(2) [of schedQ nQ progsR qQ tsQ j qQ' tsQ']
      permits_poolR(3) [of schedQ nQ progsR qQ tsQ j qQ' tsQ']
      permits_poolR(4) [of schedQ nQ progsR qQ tsQ j]
    by blast
  from a [THEN conjunct1] a [THEN conjunct2, THEN conjunct1]
    a [THEN conjunct2, THEN conjunct2, THEN conjunct1]
    a [THEN conjunct2, THEN conjunct2, THEN conjunct2, THEN conjunct1]
    a [THEN conjunct2, THEN conjunct2, THEN conjunct2, THEN conjunct2] b c
  show ?thesis by (intro conjI)
qed

theorem permits_and_lock_witness:
  "run step [0, 0, 0, 0] (start 1 [[Push (7 :: int)]]) =
     Inr (\<lparr>nmax = 1, queue = [7], mutex = 1, full = 0, empty = 0\<rparr>,
          [\<lparr>todo = [], pc = Push_full, got = []\<rparr>]) \<and>
   step \<lparr>nmax = 1, queue = [7 :: int], mutex = 1, full = 0, empty = 0\<rparr>
        \<lparr>todo = [], pc = Push_full, got = []\<rparr> =
     Inr (\<lparr>nmax = 1, queue = [7], mutex = 1, full = 1, empty = 0\<rparr>,
          \<lparr>todo = [], pc = Idle, got = []\<rparr>) \<and>
   mutex \<lparr>nmax = 1, queue = [7 :: int], mutex = 1, full = 0, empty = 0\<rparr> = 1 \<and>
   run step [0, 0] (start 1 [[Push (7 :: int)]]) =
     Inr (\<lparr>nmax = 1, queue = [], mutex = 0, full = 0, empty = 0\<rparr>,
          [\<lparr>todo = [], pc = Push_queue 7, got = []\<rparr>]) \<and>
   step \<lparr>nmax = 1, queue = [] :: int list, mutex = 0, full = 0, empty = 0\<rparr>
        \<lparr>todo = [], pc = Push_queue 7, got = []\<rparr> \<noteq> Inl Blocks \<and>
   run stepR [0, 0, 0, 0, 0, 0] (startR 1 [[Push (7 :: int), Pop]]) =
     Inr (\<lparr>nmaxR = 1, queueR = [7], mutexR = 1, fullR = 0\<rparr>,
          [\<lparr>todo = [], pc = PopR_lock, got = []\<rparr>]) \<and>
   mutexR \<lparr>nmaxR = 1, queueR = [7 :: int], mutexR = 1, fullR = 1\<rparr> = 1 \<and>
   run stepR [0, 0, 0] (startR 1 [[Push (7 :: int)]]) =
     Inr (\<lparr>nmaxR = 1, queueR = [7], mutexR = 0, fullR = 0\<rparr>,
          [\<lparr>todo = [], pc = PushR_full, got = []\<rparr>]) \<and>
   mutexR \<lparr>nmaxR = 1, queueR = [7 :: int], mutexR = 0, fullR = 0\<rparr> = 0 \<and>
   stepR \<lparr>nmaxR = 1, queueR = [7 :: int], mutexR = 0, fullR = 0\<rparr>
         \<lparr>todo = [], pc = PushR_full, got = []\<rparr> \<noteq> Inl Blocks \<and>
   sys_step step 0
     (\<lparr>nmax = 1, queue = [] :: int list, mutex = 0, full = 0, empty = 0\<rparr>,
      [\<lparr>todo = [], pc = Push_queue 7, got = []\<rparr>]) \<noteq> Inl Blocks \<and>
   sys_step stepR 0
     (\<lparr>nmaxR = 1, queueR = [7 :: int], mutexR = 0, fullR = 0\<rparr>,
      [\<lparr>todo = [], pc = PushR_full, got = []\<rparr>]) \<noteq> Inl Blocks"
proof -
  let ?q = "\<lparr>nmax = 1, queue = [7 :: int], mutex = 1, full = 0, empty = 0\<rparr>"
  let ?t = "\<lparr>todo = [], pc = Push_full :: int pc, got = [] :: int list\<rparr>"
  let ?q' = "\<lparr>nmax = 1, queue = [7 :: int], mutex = 1, full = 1, empty = 0\<rparr>"
  let ?t' = "\<lparr>todo = [], pc = Idle :: int pc, got = [] :: int list\<rparr>"
  let ?q2 = "\<lparr>nmax = 1, queue = [] :: int list, mutex = 0, full = 0, empty = 0\<rparr>"
  let ?t2 = "\<lparr>todo = [], pc = Push_queue (7 :: int), got = [] :: int list\<rparr>"
  let ?qR = "\<lparr>nmaxR = 1, queueR = [7 :: int], mutexR = 1, fullR = 1\<rparr>"
  let ?tR = "\<lparr>todo = [Pop], pc = IdleR :: int pcR, got = [] :: int list\<rparr>"
  let ?qR' = "\<lparr>nmaxR = 1, queueR = [7 :: int], mutexR = 1, fullR = 0\<rparr>"
  let ?tR' = "\<lparr>todo = [], pc = PopR_lock :: int pcR, got = [] :: int list\<rparr>"
  let ?qR4 = "\<lparr>nmaxR = 1, queueR = [7 :: int], mutexR = 0, fullR = 0\<rparr>"
  let ?tR4 = "\<lparr>todo = [], pc = PushR_full :: int pcR, got = [] :: int list\<rparr>"
  let ?qR5 = "\<lparr>nmaxR = 1, queueR = [7 :: int], mutexR = 0, fullR = 1\<rparr>"
  let ?tR5 = "\<lparr>todo = [], pc = PushR_unlock :: int pcR, got = [] :: int list\<rparr>"
  have r: "run step [0, 0, 0, 0] (start 1 [[Push (7 :: int)]]) = Inr (?q, [?t])"
    by code_simp
  have s: "step ?q ?t = Inr (?q', ?t')"
    by code_simp
  have r2: "run step [0, 0] (start 1 [[Push (7 :: int)]]) = Inr (?q2, [?t2])"
    by code_simp
  have rR: "run stepR [0, 0, 0, 0, 0] (startR 1 [[Push (7 :: int), Pop]]) = Inr (?qR, [?tR])"
    by code_simp
  have sR: "stepR ?qR ?tR = Inr (?qR', ?tR')"
    by code_simp
  have rR': "run stepR [0, 0, 0, 0, 0, 0] (startR 1 [[Push (7 :: int), Pop]]) = Inr (?qR', [?tR'])"
    by code_simp
  have rR4: "run stepR [0, 0, 0] (startR 1 [[Push (7 :: int)]]) = Inr (?qR4, [?tR4])"
    by code_simp
  have sR4: "stepR ?qR4 ?tR4 = Inr (?qR5, ?tR5)"
    by code_simp
  have c: "full ?q' \<noteq> full ?q \<or> empty ?q' \<noteq> empty ?q" and cR: "fullR ?qR' < fullR ?qR"
    and cR4: "fullR ?qR4 < fullR ?qR5" and m2: "mutex ?q2 = 0" and mR4: "mutexR ?qR4 = 0"
    by simp_all
  from permits_and_lock [where sched = "[0, 0, 0, 0]" and n = 1 and cs = "[Push 7]" and q = ?q
      and t = ?t and q' = ?q' and t' = ?t', THEN conjunct1] r s c
  have A: "mutex ?q = 1" by blast
  from permits_and_lock [where sched = "[0, 0]" and n = 1 and cs = "[Push 7]" and q = ?q2
      and t = ?t2, THEN conjunct2, THEN conjunct1] r2 m2
  have B: "step ?q2 ?t2 \<noteq> Inl Blocks" by blast
  from permits_and_lock [where schedR = "[0, 0, 0, 0, 0]" and nR = 1 and csR = "[Push 7, Pop]"
      and qR = ?qR and tR = ?tR and qR' = ?qR' and tR' = ?tR',
      THEN conjunct2, THEN conjunct2, THEN conjunct1] rR sR cR
  have C: "mutexR ?qR = 1" by blast
  from permits_and_lock [where schedR = "[0, 0, 0]" and nR = 1 and csR = "[Push 7]"
      and qR = ?qR4 and tR = ?tR4 and qR' = ?qR5 and tR' = ?tR5,
      THEN conjunct2, THEN conjunct2, THEN conjunct2, THEN conjunct1] rR4 sR4 cR4
  have D: "mutexR ?qR4 = 0" by blast
  from permits_and_lock [where schedR = "[0, 0, 0]" and nR = 1 and csR = "[Push 7]"
      and qR = ?qR4 and tR = ?tR4,
      THEN conjunct2, THEN conjunct2, THEN conjunct2, THEN conjunct2] rR4 mR4
  have E: "stepR ?qR4 ?tR4 \<noteq> Inl Blocks" by blast
  have l: "0 < length [?t2]" and ic: "in_cs (pc ([?t2] ! 0)) = 1" by simp_all
  from permits_and_lock [where schedP = "[0, 0]" and nP = 1 and progs = "[[Push 7]]" and qP = ?q2
      and tsP = "[?t2]" and i = 0,
      THEN conjunct2, THEN conjunct2, THEN conjunct2, THEN conjunct2, THEN conjunct2, THEN conjunct1]
    r2 l ic
  have F: "sys_step step 0 (?q2, [?t2]) \<noteq> Inl Blocks" by blast
  have lR: "0 < length [?tR4]" and icR: "in_csR (pc ([?tR4] ! 0)) = 1" by simp_all
  from permits_and_lock [where schedQ = "[0, 0, 0]" and nQ = 1 and progsR = "[[Push 7]]"
      and qQ = ?qR4 and tsQ = "[?tR4]" and j = 0,
      THEN conjunct2, THEN conjunct2, THEN conjunct2, THEN conjunct2, THEN conjunct2, THEN conjunct2]
    rR4 lR icR
  have G: "sys_step stepR 0 (?qR4, [?tR4]) \<noteq> Inl Blocks" by blast
  from r s A r2 B rR' C rR4 D E F G show ?thesis by (intro conjI)
qed

text \<open>
  Claim C8 as stated fails: \<open>MsgQueueReplace::push\<close> calls \<open>full.increment()\<close> before
  its \<open>Lock\<close> is released. Here a thread alone, pushing into a fresh queue of capacity 1,
  has taken the mutex and appended its message; its next statement raises \<open>full\<close> from
  0 to 1 while the mutex is 0.
\<close>

theorem permits_and_lock_counterexample:
  "run stepR [0, 0, 0] (startR 1 [[Push (7 :: int)]]) =
     Inr (\<lparr>nmaxR = 1, queueR = [7], mutexR = 0, fullR = 0\<rparr>,
          [\<lparr>todo = [], pc = PushR_full, got = []\<rparr>]) \<and>
   stepR \<lparr>nmaxR = 1, queueR = [7 :: int], mutexR = 0, fullR = 0\<rparr>
         \<lparr>todo = [], pc = PushR_full, got = []\<rparr> =
     Inr (\<lparr>nmaxR = 1, queueR = [7], mutexR = 0, fullR = 1\<rparr>,
          \<lparr>todo = [], pc = PushR_unlock, got = []\<rparr>) \<and>
   mutexR \<lparr>nmaxR = 1, queueR = [7 :: int], mutexR = 0, fullR = 0\<rparr> = 0 \<and>
   fullR \<lparr>nmaxR = 1, queueR = [7 :: int], mutexR = 0, fullR = 1\<rparr> \<noteq>
     fullR \<lparr>nmaxR = 1, queueR = [7 :: int], mutexR = 0, fullR = 0\<rparr>"
  by code_simp

section \<open>Reading the head of the storage\<close>

lemma access_MsgQueue:
  assumes "run step sched (start n progs) = Inr (q, ts)"
  shows "full q \<le> length (queue q)"
    and "i < length ts \<Longrightarrow> reads_front (pc (ts ! i)) \<Longrightarrow> queue q \<noteq> []"
proof -
  from inv_sys_run [OF assms]
  have f: "length (queue q) = full q + total (\<lambda>t. item_held (pc t)) ts"
    by (simp add: inv_sys_def)
  then show "full q \<le> length (queue q)" by simp
  show "queue q \<noteq> []" if i: "i < length ts" and a: "reads_front (pc (ts ! i))"
    using f total_ge_nth [OF i, of "\<lambda>t. item_held (pc t)"] reads_front_held [OF a] by auto
qed

lemma access_MsgQueueReplace:
  assumes "run stepR sched (startR n progs) = Inr (q, ts)"
  shows "1 \<le> nmaxR q"
    and "mutexR q \<noteq> 0 \<Longrightarrow> fullR q \<le> length (queueR q)"
    and "fullR q \<le> length (queueR q) + 1"
    and "i < length ts \<Longrightarrow> pc (ts ! i) = PushR_drop msg \<Longrightarrow> nmaxR q \<le> int (length (queueR q))"
    and "i < length ts \<Longrightarrow> reads_frontR (pc (ts ! i)) \<Longrightarrow> queueR q \<noteq> []"
proof -
  note v = inv_sysR_run [OF assms]
  from v have n: "1 \<le> nmaxR q"
    and m: "mutexR q + total (\<lambda>t. in_csR (pc t)) ts = 1"
    and f: "length (queueR q) + total (\<lambda>t. droppedR (pc t)) ts =
          fullR q + total (\<lambda>t. item_heldR (pc t)) ts"
    and h: "list_all (\<lambda>t. localR (nmaxR q) (queueR q) (pc t)) ts"
    by (simp_all add: inv_sysR_def)
  have d: "total (\<lambda>t. droppedR (pc t)) ts \<le> total (\<lambda>t. in_csR (pc t)) ts"
    by (rule total_mono) (rule droppedR_in_cs)
  show "1 \<le> nmaxR q" by (rule n)
  show "fullR q \<le> length (queueR q)" if "mutexR q \<noteq> 0"
    using that m d f by simp
  show "fullR q \<le> length (queueR q) + 1"
    using m d f by simp
  show "nmaxR q \<le> int (length (queueR q))" if "i < length ts" and "pc (ts ! i) = PushR_drop msg"
    using h that by (auto simp: list_all_length)
  show "queueR q \<noteq> []" if i: "i < length ts" and a: "reads_frontR (pc (ts ! i))"
  proof
    assume e: "queueR q = []"
    have "sys_step stepR i (q, ts) = Inl Undefined"
      using i a e by (cases "pc (ts ! i)") (simp_all add: sys_step_Inl stepR_def)
    with inv_sysR_no_Undefined [OF v, of i] show False by simp
  qed
qed

lemma no_empty_access:
  "run step sched (start n progs) \<noteq> Inl Undefined \<and>
   run stepR sched (startR n progs) \<noteq> Inl Undefined \<and>
   calls cs (new_MsgQueue n) \<noteq> Inl Undefined \<and>
   callsR cs (new_MsgQueueReplace n) \<noteq> Inl Undefined \<and>
   (run step sched (start n progs) = Inr (q, ts) \<longrightarrow>
      full q \<le> length (queue q) \<and>
      (\<forall>i<length ts. reads_front (pc (ts ! i)) \<longrightarrow> queue q \<noteq> [])) \<and>
   (run stepR sched (startR n progs) = Inr (qR, tsR) \<longrightarrow>
      1 \<le> nmaxR qR \<and>
      (mutexR qR \<noteq> 0 \<longrightarrow> fullR qR \<le> length (queueR qR)) \<and>
      fullR qR \<le> length (queueR qR) + 1 \<and>
      (\<forall>i<length tsR. \<forall>msg. pc (tsR ! i) = PushR_drop msg \<longrightarrow>
         nmaxR qR \<le> int (length (queueR qR))) \<and>
      (\<forall>i<length tsR. reads_frontR (pc (tsR ! i)) \<longrightarrow> queueR qR \<noteq> []))"
  using run_no_Undefined [of sched n progs] runR_no_Undefined [of sched n progs]
    calls_no_Undefined [OF inv_rest_new, of cs n] callsR_no_Undefined [OF inv_restR_new, of cs n]
    access_MsgQueue [of sched n progs q ts] access_MsgQueueReplace [of sched n progs qR tsR]
  by blast

lemma pop_entry:
  assumes "step q t = Inr (q', t')"
  shows "pc t' = Pop_lock \<longrightarrow> pc t = Idle \<and> full q' + 1 = full q"
    and "reads_front (pc t') \<longrightarrow> pc t = Pop_lock \<or> pc t = Pop_front"
  using assms
  by (auto simp: step_def Lock_def unLock_def and_then_Inr decrement_Inr split: step_splits)

lemma popR_entry:
  assumes "stepR q t = Inr (q', t')"
  shows "pc t' = PopR_lock \<longrightarrow> pc t = IdleR \<and> fullR q' + 1 = fullR q"
    and "pc t' = PopR_front \<or> (\<exists>ret. pc t' = PopR_queue ret) \<longrightarrow>
           pc t = PopR_lock \<or> pc t = PopR_front"
    and "pc t' = PushR_drop msg \<longrightarrow>
           pc t = PushR_test msg \<and> nmaxR q \<le> int (length (queueR q))"
  using assms
  by (auto simp: stepR_def Lock_def unLock_def and_then_Inr decrement_Inr
      split: stepR_splits if_splits)

lemma full_exceedsR:
  assumes "run stepR sched (startR n progs) = Inr (q, ts)"
    and "\<forall>i<length ts. \<forall>msg. pc (ts ! i) \<noteq> PushR_put msg"
  shows "fullR q \<le> length (queueR q)"
proof -
  from inv_sysR_run [OF assms(1)]
  have f: "length (queueR q) + total (\<lambda>t. droppedR (pc t)) ts =
          fullR q + total (\<lambda>t. item_heldR (pc t)) ts"
    by (simp add: inv_sysR_def)
  have "droppedR (pc (ts ! i)) = 0" if "i < length ts" for i
    using assms(2) that by (cases "pc (ts ! i)") auto
  then have "total (\<lambda>t. droppedR (pc t)) ts = 0"
    by (simp add: total_zero list_all_length)
  with f show ?thesis by simp
qed

text \<open>
  Claim C9, amended. No interleaving of the statements of any threads, and no sequence
  of calls, on either queue, reaches \<open>front()\<close> or \<open>pop()\<close> of an empty storage. In
  every reachable state of \<open>MsgQueue\<close> the count of \<open>full\<close> is at most the size of the
  storage, and the storage is not empty when a thread is at \<open>queue.front()\<close> or
  \<open>queue.pop()\<close>. In every reachable state of \<open>MsgQueueReplace\<close>, \<open>nmax\<close> is at least 1;
  the count of \<open>full\<close> is at most the size of the storage while the mutex is free, and
  whenever no thread is between the \<open>queue.pop()\<close> and the \<open>queue.push(msg)\<close> of a
  replacing push, wherever the threads are otherwise; it is at most one more at any
  time; a thread at the \<open>queue.pop()\<close> of the replacement has found the size at least
  \<open>nmax\<close>; and the storage is not empty when a thread is at \<open>queue.front()\<close> or at
  either \<open>queue.pop()\<close>. In both classes a thread comes to
  \<open>queue.front()\<close> and \<open>queue.pop()\<close> of \<open>pop\<close> only through the \<open>Lock\<close> of \<open>pop\<close>,
  and to that only by taking a \<open>full\<close> permit; it comes to the \<open>queue.pop()\<close> of the
  replacement only from the test, when the size is at least \<open>nmax\<close>.
\<close>

theorem storage_access_guarded:
  "run step sched (start n progs) \<noteq> Inl Undefined \<and>
   run stepR sched (startR n progs) \<noteq> Inl Undefined \<and>
   calls cs (new_MsgQueue n) \<noteq> Inl Undefined \<and>
   callsR cs (new_MsgQueueReplace n) \<noteq> Inl Undefined \<and>
   (run step sched (start n progs) = Inr (q, ts) \<longrightarrow>
      full q \<le> length (queue q) \<and>
      (\<forall>i<length ts. reads_front (pc (ts ! i)) \<longrightarrow> queue q \<noteq> [])) \<and>
   (run stepR sched (startR n progs) = Inr (qR, tsR) \<longrightarrow>
      1 \<le> nmaxR qR \<and>
      (mutexR qR \<noteq> 0 \<longrightarrow> fullR qR \<le> length (queueR qR)) \<and>
      fullR qR \<le> length (queueR qR) + 1 \<and>
      ((\<forall>i<length tsR. \<forall>msg. pc (tsR ! i) \<noteq> PushR_put msg) \<longrightarrow>
         fullR qR \<le> length (queueR qR)) \<and>
      (\<forall>i<length tsR. \<forall>msg. pc (tsR ! i) = PushR_drop msg \<longrightarrow>
         nmaxR qR \<le> int (length (queueR qR))) \<and>
      (\<forall>i<length tsR. reads_frontR (pc (tsR ! i)) \<longrightarrow> queueR qR \<noteq> [])) \<and>
   (step q0 t = Inr (q0', t') \<longrightarrow>
      (pc t' = Pop_lock \<longrightarrow> pc t = Idle \<and> full q0' + 1 = full q0) \<and>
      (reads_front (pc t') \<longrightarrow> pc t = Pop_lock \<or> pc t = Pop_front)) \<and>
   (stepR qR0 tR = Inr (qR0', tR') \<longrightarrow>
      (pc tR' = PopR_lock \<longrightarrow> pc tR = IdleR \<and> fullR qR0' + 1 = fullR qR0) \<and>
      (pc tR' = PopR_front \<or> (\<exists>ret. pc tR' = PopR_queue ret) \<longrightarrow>
         pc tR = PopR_lock \<or> pc tR = PopR_front) \<and>
      (pc tR' = PushR_drop msg \<longrightarrow>
         pc tR = PushR_test msg \<and> nmaxR qR0 \<le> int (length (queueR qR0))))"
proof -
  note a = no_empty_access [of sched n progs cs q ts qR tsR]
  have b: "step q0 t = Inr (q0', t') \<longrightarrow>
      (pc t' = Pop_lock \<longrightarrow> pc t = Idle \<and> full q0' + 1 = full q0) \<and>
      (reads_front (pc t') \<longrightarrow> pc t = Pop_lock \<or> pc t = Pop_front)"
    using pop_entry(1) [of q0 t q0' t'] pop_entry(2) [of q0 t q0' t'] by blast
  have c: "stepR qR0 tR = Inr (qR0', tR') \<longrightarrow>
      (pc tR' = PopR_lock \<longrightarrow> pc tR = IdleR \<and> fullR qR0' + 1 = fullR qR0) \<and>
      (pc tR' = PopR_front \<or> (\<exists>ret. pc tR' = PopR_queue ret) \<longrightarrow>
         pc tR = PopR_lock \<or> pc tR = PopR_front) \<and>
      (pc tR' = PushR_drop msg \<longrightarrow>
         pc tR = PushR_test msg \<and> nmaxR qR0 \<le> int (length (queueR qR0)))"
    using popR_entry(1) [of qR0 tR qR0' tR'] popR_entry(2) [of qR0 tR qR0' tR']
      popR_entry(3) [of qR0 tR qR0' tR' msg] by blast
  have d: "run stepR sched (startR n progs) = Inr (qR, tsR) \<longrightarrow>
      1 \<le> nmaxR qR \<and>
      (mutexR qR \<noteq> 0 \<longrightarrow> fullR qR \<le> length (queueR qR)) \<and>
      fullR qR \<le> length (queueR qR) + 1 \<and>
      ((\<forall>i<length tsR. \<forall>msg. pc (tsR ! i) \<noteq> PushR_put msg) \<longrightarrow>
         fullR qR \<le> length (queueR qR)) \<and>
      (\<forall>i<length tsR. \<forall>msg. pc (tsR ! i) = PushR_drop msg \<longrightarrow>
         nmaxR qR \<le> int (length (queueR qR))) \<and>
      (\<forall>i<length tsR. reads_frontR (pc (tsR ! i)) \<longrightarrow> queueR qR \<noteq> [])"
  proof
    assume e: "run stepR sched (startR n progs) = Inr (qR, tsR)"
    note g = access_MsgQueueReplace [OF e]
    have x: "(\<forall>i<length tsR. \<forall>msg. pc (tsR ! i) \<noteq> PushR_put msg) \<longrightarrow>
         fullR qR \<le> length (queueR qR)"
      using full_exceedsR [OF e] by blast
    have y: "\<forall>i<length tsR. \<forall>msg. pc (tsR ! i) = PushR_drop msg \<longrightarrow>
         nmaxR qR \<le> int (length (queueR qR))"
      using g(4) by blast
    have z: "\<forall>i<length tsR. reads_frontR (pc (tsR ! i)) \<longrightarrow> queueR qR \<noteq> []"
      using g(5) by blast
    have w: "mutexR qR \<noteq> 0 \<longrightarrow> fullR qR \<le> length (queueR qR)"
      using g(2) by blast
    from g(1) w g(3) x y z
    show "1 \<le> nmaxR qR \<and>
      (mutexR qR \<noteq> 0 \<longrightarrow> fullR qR \<le> length (queueR qR)) \<and>
      fullR qR \<le> length (queueR qR) + 1 \<and>
      ((\<forall>i<length tsR. \<forall>msg. pc (tsR ! i) \<noteq> PushR_put msg) \<longrightarrow>
         fullR qR \<le> length (queueR qR)) \<and>
      (\<forall>i<length tsR. \<forall>msg. pc (tsR ! i) = PushR_drop msg \<longrightarrow>
         nmaxR qR \<le> int (length (queueR qR))) \<and>
      (\<forall>i<length tsR. reads_frontR (pc (tsR ! i)) \<longrightarrow> queueR qR \<noteq> [])"
      by (intro conjI)
  qed
  from a [THEN conjunct1] a [THEN conjunct2, THEN conjunct1]
    a [THEN conjunct2, THEN conjunct2, THEN conjunct1]
    a [THEN conjunct2, THEN conjunct2, THEN conjunct2, THEN conjunct1]
    a [THEN conjunct2, THEN conjunct2, THEN conjunct2, THEN conjunct2, THEN conjunct1]
    d b c
  show ?thesis by (intro conjI)
qed

theorem storage_access_guarded_witness:
  "run step [0, 0, 0, 0, 0, 0, 0] (start 1 [[Push (1 :: int), Pop]]) =
     Inr (\<lparr>nmax = 1, queue = [1], mutex = 0, full = 0, empty = 0\<rparr>,
          [\<lparr>todo = [], pc = Pop_front, got = []\<rparr>]) \<and>
   queue \<lparr>nmax = 1, queue = [1 :: int], mutex = 0, full = 0, empty = 0\<rparr> \<noteq> [] \<and>
   run stepR [0, 0, 0, 0, 0, 0, 0] (startR 1 [[Push 1, Push (2 :: int)]]) =
     Inr (\<lparr>nmaxR = 1, queueR = [1], mutexR = 0, fullR = 1\<rparr>,
          [\<lparr>todo = [], pc = PushR_drop 2, got = []\<rparr>]) \<and>
   queueR \<lparr>nmaxR = 1, queueR = [1 :: int], mutexR = 0, fullR = 1\<rparr> \<noteq> [] \<and>
   fullR \<lparr>nmaxR = 1, queueR = [1 :: int], mutexR = 0, fullR = 1\<rparr>
     \<le> length (queueR \<lparr>nmaxR = 1, queueR = [1 :: int], mutexR = 0, fullR = 1\<rparr>) \<and>
   step \<lparr>nmax = 1, queue = [1 :: int], mutex = 1, full = 1, empty = 0\<rparr>
        \<lparr>todo = [Pop], pc = Idle, got = []\<rparr> =
     Inr (\<lparr>nmax = 1, queue = [1], mutex = 1, full = 0, empty = 0\<rparr>,
          \<lparr>todo = [], pc = Pop_lock, got = []\<rparr>) \<and>
   stepR \<lparr>nmaxR = 1, queueR = [1 :: int], mutexR = 0, fullR = 1\<rparr>
         \<lparr>todo = [], pc = PushR_test 2, got = []\<rparr> =
     Inr (\<lparr>nmaxR = 1, queueR = [1], mutexR = 0, fullR = 1\<rparr>,
          \<lparr>todo = [], pc = PushR_drop 2, got = []\<rparr>) \<and>
   nmaxR \<lparr>nmaxR = 1, queueR = [1 :: int], mutexR = 0, fullR = 1\<rparr>
     \<le> int (length (queueR \<lparr>nmaxR = 1, queueR = [1 :: int], mutexR = 0, fullR = 1\<rparr>))"
proof -
  let ?q = "\<lparr>nmax = 1, queue = [1 :: int], mutex = 0, full = 0, empty = 0\<rparr>"
  let ?ts = "[\<lparr>todo = [], pc = Pop_front :: int pc, got = [] :: int list\<rparr>]"
  let ?qR = "\<lparr>nmaxR = 1, queueR = [1 :: int], mutexR = 0, fullR = 1\<rparr>"
  let ?tsR = "[\<lparr>todo = [], pc = PushR_drop (2 :: int), got = [] :: int list\<rparr>]"
  let ?qb = "\<lparr>nmax = 1, queue = [1 :: int], mutex = 1, full = 1, empty = 0\<rparr>"
  let ?tb = "\<lparr>todo = [Pop], pc = Idle :: int pc, got = [] :: int list\<rparr>"
  let ?qb' = "\<lparr>nmax = 1, queue = [1 :: int], mutex = 1, full = 0, empty = 0\<rparr>"
  let ?tb' = "\<lparr>todo = [], pc = Pop_lock :: int pc, got = [] :: int list\<rparr>"
  let ?tR = "\<lparr>todo = [], pc = PushR_test (2 :: int), got = [] :: int list\<rparr>"
  let ?tR' = "\<lparr>todo = [], pc = PushR_drop (2 :: int), got = [] :: int list\<rparr>"
  have r: "run step [0, 0, 0, 0, 0, 0, 0] (start 1 [[Push (1 :: int), Pop]]) = Inr (?q, ?ts)"
    by code_simp
  have rR: "run stepR [0, 0, 0, 0, 0, 0, 0] (startR 1 [[Push 1, Push (2 :: int)]]) = Inr (?qR, ?tsR)"
    by code_simp
  have s: "step ?qb ?tb = Inr (?qb', ?tb')"
    by code_simp
  have sR: "stepR ?qR ?tR = Inr (?qR, ?tR')"
    by code_simp
  have a: "0 < length ?ts" "reads_front (pc (?ts ! 0))"
    and aR: "0 < length ?tsR" "reads_frontR (pc (?tsR ! 0))"
    and pR: "pc ?tR' = PushR_drop 2" by simp_all
  from storage_access_guarded [where sched = "[0, 0, 0, 0, 0, 0, 0]" and n = 1
      and progs = "[[Push 1, Pop]]" and q = ?q and ts = ?ts,
      THEN conjunct2, THEN conjunct2, THEN conjunct2, THEN conjunct2, THEN conjunct1] r a
  have A: "queue ?q \<noteq> []" by blast
  from storage_access_guarded [where sched = "[0, 0, 0, 0, 0, 0, 0]" and n = 1
      and progs = "[[Push 1, Push 2]]" and qR = ?qR and tsR = ?tsR,
      THEN conjunct2, THEN conjunct2, THEN conjunct2, THEN conjunct2, THEN conjunct2,
      THEN conjunct1] rR aR
  have B: "queueR ?qR \<noteq> []" by blast
  have nR: "\<forall>i<length ?tsR. \<forall>msg. pc (?tsR ! i) \<noteq> PushR_put msg" by simp
  from storage_access_guarded [where sched = "[0, 0, 0, 0, 0, 0, 0]" and n = 1
      and progs = "[[Push 1, Push 2]]" and qR = ?qR and tsR = ?tsR,
      THEN conjunct2, THEN conjunct2, THEN conjunct2, THEN conjunct2, THEN conjunct2,
      THEN conjunct1] rR nR
  have E: "fullR ?qR \<le> length (queueR ?qR)" by blast
  from storage_access_guarded [where ?q0.0 = ?qb and t = ?tb and q0' = ?qb' and t' = ?tb',
      THEN conjunct2, THEN conjunct2, THEN conjunct2, THEN conjunct2, THEN conjunct2,
      THEN conjunct2, THEN conjunct1] s
  have D: "full ?qb' + 1 = full ?qb" by simp
  from storage_access_guarded [where ?qR0.0 = ?qR and tR = ?tR and qR0' = ?qR and tR' = ?tR'
      and msg = 2,
      THEN conjunct2, THEN conjunct2, THEN conjunct2, THEN conjunct2, THEN conjunct2,
      THEN conjunct2, THEN conjunct2] sR pR
  have C: "nmaxR ?qR \<le> int (length (queueR ?qR))" by blast
  from r A rR B E s sR C show ?thesis by (intro conjI)
qed

text \<open>
  Claim C9 as stated fails: in \<open>MsgQueueReplace::push\<close>, between the \<open>queue.pop()\<close> and
  the \<open>queue.push(msg)\<close> of the replacement, \<open>full\<close> counts one more than the storage
  holds. Here a thread alone pushes 1 and then 2 into a queue of capacity 1; after the
  \<open>queue.pop()\<close> of its second call the storage is empty and \<open>full\<close> is 1.
\<close>

theorem storage_access_guarded_counterexample:
  "run stepR [0, 0, 0, 0, 0, 0, 0, 0] (startR 1 [[Push 1, Push (2 :: int)]]) =
     Inr (\<lparr>nmaxR = 1, queueR = [], mutexR = 0, fullR = 1\<rparr>,
          [\<lparr>todo = [], pc = PushR_put 2, got = []\<rparr>]) \<and>
   \<not> fullR \<lparr>nmaxR = 1, queueR = [] :: int list, mutexR = 0, fullR = 1\<rparr>
       \<le> length (queueR \<lparr>nmaxR = 1, queueR = [] :: int list, mutexR = 0, fullR = 1\<rparr>)"
  by code_simp

end
